theory Spec2Isabelle
  imports Complex_Main "HOL-Library.Multiset" "HOL-Library.Sublist"
begin

section \<open>Strings and JavaScript values\<close>

text \<open>
  JavaScript strings are modelled as \<open>string\<close> (a list of 8-bit characters), read as
  ASCII text: case directory names, file names, routes and URLs of the repository are
  ASCII. Exceptions and rejected promises are values \<open>Inl e\<close> of a sum type.
\<close>

datatype error =
  ApiError string   \<comment> \<open>a backend call (HTTP, SDK) that throws or rejects\<close>
| TypeError         \<comment> \<open>a member access or call on undefined, or a call of a non-function\<close>

text \<open>\<open>s.split(d)\<close> for a one-character separator: never empty, \<open>"".split(d) = [""]\<close>.\<close>

fun split_on :: "char \<Rightarrow> string \<Rightarrow> string list" where
  "split_on d [] = [[]]"
| "split_on d (c # cs) =
     (if c = d then [] # split_on d cs
      else (case split_on d cs of [] \<Rightarrow> [[c]] | s # ss \<Rightarrow> (c # s) # ss))"

text \<open>\<open>String.prototype.toLowerCase\<close> and \<open>toUpperCase\<close> on ASCII text.\<close>

definition lower_char :: "char \<Rightarrow> char" where
  "lower_char c =
     (case map_of (zip ''ABCDEFGHIJKLMNOPQRSTUVWXYZ'' ''abcdefghijklmnopqrstuvwxyz'') c of
        None \<Rightarrow> c | Some l \<Rightarrow> l)"

definition upper_char :: "char \<Rightarrow> char" where
  "upper_char c =
     (case map_of (zip ''abcdefghijklmnopqrstuvwxyz'' ''ABCDEFGHIJKLMNOPQRSTUVWXYZ'') c of
        None \<Rightarrow> c | Some u \<Rightarrow> u)"

definition toLowerCase :: "string \<Rightarrow> string" where
  "toLowerCase s = map lower_char s"

definition toUpperCase :: "string \<Rightarrow> string" where
  "toUpperCase s = map upper_char s"

text \<open>\<open>name.split("-")[0].toLowerCase()\<close>: element 0 of a split always exists.\<close>

definition case_prefix :: "string \<Rightarrow> string" where
  "case_prefix caseName =
     toLowerCase (case split_on CHR ''-'' caseName of [] \<Rightarrow> [] | s # _ \<Rightarrow> s)"

text \<open>
  The value of \<open>lookup[prefix] || "image"\<close> for the object literal
  \<open>{audio: "audio", video: "video", hybrid: "hybrid", text: "text"}\<close>. An object literal
  inherits from \<open>Object.prototype\<close>, so a key that names one of its members reads a
  function or an object, which is truthy and is not a string. (A lower-cased prefix can
  only hit \<open>constructor\<close> and \<open>__proto__\<close>, the members without an upper-case letter.)
\<close>

datatype js_value =
  Str string          \<comment> \<open>a string\<close>
| Inherited string    \<comment> \<open>the member of \<open>Object.prototype\<close> under this key\<close>

definition object_prototype_keys :: "string list" where
  "object_prototype_keys =
     [''constructor'', ''__proto__'', ''hasOwnProperty'', ''isPrototypeOf'',
      ''propertyIsEnumerable'', ''toLocaleString'', ''toString'', ''valueOf'',
      ''__defineGetter__'', ''__defineSetter__'', ''__lookupGetter__'', ''__lookupSetter__'']"

definition lookup_type :: "string \<Rightarrow> js_value" where
  "lookup_type key =
     (if key \<in> set [''audio'', ''video'', ''hybrid'', ''text''] then Str key
      else if key \<in> set object_prototype_keys then Inherited key
      else Str ''image'')"

text \<open>
  The \<open>switch (caseType)\<close> shared by \<open>checkAssetsInOneDrive\<close>, \<open>checkAssetsInAzure\<close>,
  \<open>checkAssetsInGoogleDrive\<close> and Dropbox's \<open>checkAssets\<close>: \<open>switch\<close> compares with
  \<open>===\<close>, so only a string can select a case.
\<close>

definition asset_switch :: "js_value \<Rightarrow> nat \<Rightarrow> bool" where
  "asset_switch caseType n =
     (case caseType of
        Str t \<Rightarrow>
          (if t = ''image'' then 3 \<le> n
           else if t = ''audio'' \<or> t = ''video'' \<or> t = ''text'' then 2 \<le> n
           else if t = ''hybrid'' then 3 \<le> n
           else False)
      | Inherited _ \<Rightarrow> False)"

text \<open>
  \<open>Promise.all(cases.map(async ...))\<close>: fulfilled with the results in input order when
  every promise fulfils, rejected when one rejects. Which rejection wins depends on the
  order in which the requests settle; the model reports the first one in input order.
\<close>

fun promise_all :: "(error + 'a) list \<Rightarrow> error + 'a list" where
  "promise_all [] = Inr []"
| "promise_all (Inl e # ps) = Inl e"
| "promise_all (Inr v # ps) =
     (case promise_all ps of Inl e \<Rightarrow> Inl e | Inr vs \<Rightarrow> Inr (v # vs))"

section \<open>OneDrive integration (\<open>onedrive.js\<close>)\<close>

text \<open>
  An item of a Graph API \<open>children\<close> response: \<open>item.folder\<close> and \<open>item.file\<close> are facets
  that are present or absent. A response carries one page of items in \<open>value\<close> and, when
  the listing has more pages, a continuation link (\<open>@odata.nextLink\<close>).
\<close>

record drive_item =
  item_name :: string
  has_folder :: bool
  has_file :: bool

record children_response =
  resp_value :: "drive_item list"
  next_link :: "string option"

text \<open>\<open>client.get(url)\<close>: the backend, from request URL to response or failure.\<close>

type_synonym graph_client = "string \<Rightarrow> error + children_response"

definition children_url :: "string \<Rightarrow> string \<Rightarrow> string" where
  "children_url rootDir path = ''/root:/'' @ rootDir @ ''/'' @ path @ '':/children''"

text \<open>\<open>name.includes(substring)\<close>\<close>

definition includes_str :: "string \<Rightarrow> string \<Rightarrow> bool" where
  "includes_str s sub = sublist sub s"

definition listFoldersFromOneDrive :: "graph_client \<Rightarrow> string \<Rightarrow> string \<Rightarrow> error + string list" where
  "listFoldersFromOneDrive client rootDir path =
     (case client (children_url rootDir path) of
        Inl e \<Rightarrow> Inl e
      | Inr response \<Rightarrow> Inr (map item_name (filter has_folder (resp_value response))))"

definition listFilesFromOneDrive ::
  "graph_client \<Rightarrow> string \<Rightarrow> string \<Rightarrow> string \<Rightarrow> error + string list" where
  "listFilesFromOneDrive client rootDir path substring =
     (case client (children_url rootDir path) of
        Inl e \<Rightarrow> Inl e
      | Inr response \<Rightarrow>
          Inr (map item_name
                 (filter (\<lambda>item. has_file item \<and> includes_str (item_name item) substring)
                    (resp_value response))))"

definition checkAssetsInOneDrive ::
  "graph_client \<Rightarrow> string \<Rightarrow> string \<Rightarrow> js_value \<Rightarrow> error + bool" where
  "checkAssetsInOneDrive client rootDir folderPath caseType =
     (case listFilesFromOneDrive client rootDir folderPath [] of
        Inl e \<Rightarrow> Inl e
      | Inr assets \<Rightarrow> Inr (asset_switch caseType (length assets)))"

definition validateCasesInOneDrive ::
  "graph_client \<Rightarrow> string \<Rightarrow> string list \<Rightarrow> error + bool list" where
  "validateCasesInOneDrive client rootDir cases =
     promise_all
       (map (\<lambda>caseName.
               checkAssetsInOneDrive client rootDir (''/gallery/cases/'' @ caseName)
                 (lookup_type (case_prefix caseName)))
          cases)"

section \<open>Azure integration (second module of \<open>onedrive.js\<close>)\<close>

text \<open>
  The container client. \<open>listBlobsByHierarchy(delimiter, {prefix})\<close> and
  \<open>listBlobsFlat({prefix})\<close> return async iterators, which the code drains with
  \<open>for await\<close>: the SDK fetches the pages behind the iterator, so a call is modelled by
  all its items, or by the failure that ends the iteration. An item of the hierarchy
  listing has a \<open>kind\<close> (\<open>prefix\<close> for a virtual folder) and a \<open>name\<close>; the flat listing
  is read for the blob names only.
\<close>

record hierarchy_item =
  item_kind :: string
  blob_name :: string

record container_client =
  listBlobsByHierarchy :: "string \<Rightarrow> string \<Rightarrow> error + hierarchy_item list"
  listBlobsFlat :: "string \<Rightarrow> error + string list"

text \<open>\<open>s.replace(/\/+/g, "/")\<close>: every run of slashes becomes one slash.\<close>

fun collapse_slashes :: "string \<Rightarrow> string" where
  "collapse_slashes (a # b # cs) =
     (if a = CHR ''/'' \<and> b = CHR ''/'' then collapse_slashes (b # cs)
      else a # collapse_slashes (b # cs))"
| "collapse_slashes cs = cs"

definition blob_prefix :: "string \<Rightarrow> string \<Rightarrow> string" where
  "blob_prefix rootDir path = collapse_slashes (rootDir @ ''/'' @ path)"

text \<open>
  A folder name as \<open>listFoldersFromAzure\<close> produces it: \<open>segments.pop()\<close> is \<open>undefined\<close>
  (here \<open>None\<close>) when the item's name has no non-empty segment.
\<close>

type_synonym folder_name = "string option"

definition pop :: "string list \<Rightarrow> folder_name" where
  "pop segments = (if segments = [] then None else Some (last segments))"

definition listFoldersFromAzure ::
  "container_client \<Rightarrow> string \<Rightarrow> string \<Rightarrow> error + folder_name list" where
  "listFoldersFromAzure client rootDir path =
     (case listBlobsByHierarchy client ''/'' (blob_prefix rootDir path) of
        Inl e \<Rightarrow> Inl e
      | Inr items \<Rightarrow>
          Inr (map (\<lambda>item. pop (filter (\<lambda>segment. segment \<noteq> [])
                                  (split_on CHR ''/'' (blob_name item))))
                 (filter (\<lambda>item. item_kind item = ''prefix'') items)))"

definition listFilesFromAzure ::
  "container_client \<Rightarrow> string \<Rightarrow> string \<Rightarrow> string \<Rightarrow> error + string list" where
  "listFilesFromAzure client rootDir path substring =
     (case listBlobsFlat client (blob_prefix rootDir path) of
        Inl e \<Rightarrow> Inl e
      | Inr names \<Rightarrow> Inr (filter (\<lambda>name. includes_str name substring) names))"

definition checkAssetsInAzure ::
  "container_client \<Rightarrow> string \<Rightarrow> string \<Rightarrow> js_value \<Rightarrow> error + bool" where
  "checkAssetsInAzure client rootDir folderPath caseType =
     (case listFilesFromAzure client rootDir folderPath [] of
        Inl e \<Rightarrow> Inl e
      | Inr assets \<Rightarrow> Inr (asset_switch caseType (length assets)))"

text \<open>\<open>name.split("-")\<close> on \<open>undefined\<close> raises inside the async callback.\<close>

definition validateCasesInAzure ::
  "container_client \<Rightarrow> string \<Rightarrow> folder_name list \<Rightarrow> error + bool list" where
  "validateCasesInAzure client rootDir cases =
     promise_all
       (map (\<lambda>name.
               case name of
                 None \<Rightarrow> Inl TypeError
               | Some n \<Rightarrow>
                   checkAssetsInAzure client rootDir (''gallery/cases/'' @ n)
                     (lookup_type (case_prefix n)))
          cases)"

text \<open>
  The object \<open>buckets\<close> and one round of \<open>valid.forEach\<close>:
  \<open>(buckets[key] || buckets.image).push(c)\<close>. An own key selects its array (an array is
  truthy even when empty); a key of \<open>Object.prototype\<close> reads a function or object
  without a \<open>push\<close> method, and calling it raises; any other key reads \<open>undefined\<close> and
  falls back to \<open>buckets.image\<close>.
\<close>

record buckets =
  image_bucket :: "folder_name list"
  audio_bucket :: "folder_name list"
  video_bucket :: "folder_name list"
  text_bucket :: "folder_name list"
  hybrid_bucket :: "folder_name list"

definition bucket_push :: "buckets \<Rightarrow> folder_name \<Rightarrow> error + buckets" where
  "bucket_push bs c =
     (case c of
        None \<Rightarrow> Inl TypeError
      | Some n \<Rightarrow>
          (let key = case_prefix n in
           if key = ''image'' then Inr (bs\<lparr>image_bucket := image_bucket bs @ [c]\<rparr>)
           else if key = ''audio'' then Inr (bs\<lparr>audio_bucket := audio_bucket bs @ [c]\<rparr>)
           else if key = ''video'' then Inr (bs\<lparr>video_bucket := video_bucket bs @ [c]\<rparr>)
           else if key = ''text'' then Inr (bs\<lparr>text_bucket := text_bucket bs @ [c]\<rparr>)
           else if key = ''hybrid'' then Inr (bs\<lparr>hybrid_bucket := hybrid_bucket bs @ [c]\<rparr>)
           else if key \<in> set object_prototype_keys then Inl TypeError
           else Inr (bs\<lparr>image_bucket := image_bucket bs @ [c]\<rparr>)))"

fun fill_buckets :: "buckets \<Rightarrow> folder_name list \<Rightarrow> error + buckets" where
  "fill_buckets bs [] = Inr bs"
| "fill_buckets bs (c # cs) =
     (case bucket_push bs c of Inl e \<Rightarrow> Inl e | Inr bs' \<Rightarrow> fill_buckets bs' cs)"

text \<open>
  \<open>fetchCasesFromAzure\<close>. lodash's \<open>shuffle\<close> is a parameter: it consumes randomness
  \<open>g\<close> and returns the shuffled array with the randomness left. The five calls in the
  array literal are evaluated from left to right.
\<close>

definition fetchCasesFromAzure ::
  "('g \<Rightarrow> folder_name list \<Rightarrow> folder_name list \<times> 'g) \<Rightarrow> 'g \<Rightarrow> container_client \<Rightarrow> string
     \<Rightarrow> bool \<Rightarrow> string \<Rightarrow> string list \<Rightarrow> string \<Rightarrow> error + folder_name list" where
  "fetchCasesFromAzure shuffle g client rootDir configExists path cases shuffleMode =
     (case (if configExists then Inr (map Some cases)
            else listFoldersFromAzure client rootDir path) of
        Inl e \<Rightarrow> Inl e
      | Inr candidate \<Rightarrow>
          (case validateCasesInAzure client rootDir candidate of
             Inl e \<Rightarrow> Inl e
           | Inr validFlags \<Rightarrow>
               (let valid = map fst (filter snd (zip candidate validFlags)) in
                if shuffleMode = ''categorized'' then
                  (case fill_buckets
                          \<lparr>image_bucket = [], audio_bucket = [], video_bucket = [], text_bucket = [], hybrid_bucket = []\<rparr>
                          valid of
                     Inl e \<Rightarrow> Inl e
                   | Inr bs \<Rightarrow>
                       (case shuffle g (image_bucket bs) of (is, g1) \<Rightarrow>
                        case shuffle g1 (hybrid_bucket bs) of (hs, g2) \<Rightarrow>
                        case shuffle g2 (video_bucket bs) of (vs, g3) \<Rightarrow>
                        case shuffle g3 (audio_bucket bs) of (as, g4) \<Rightarrow>
                        case shuffle g4 (text_bucket bs) of (ts, g5) \<Rightarrow>
                          Inr (is @ hs @ vs @ as @ ts)))
                else if shuffleMode = ''full'' then Inr (fst (shuffle g valid))
                else Inr valid)))"

text \<open>
  The bucket of a case name as the specification words it: the type named by the
  prefix, \<open>image\<close> for an unmatched prefix.
\<close>

definition bucket_of :: "folder_name \<Rightarrow> string" where
  "bucket_of c =
     (case c of
        None \<Rightarrow> ''image''
      | Some n \<Rightarrow>
          (if case_prefix n \<in> set [''hybrid'', ''video'', ''audio'', ''text'']
           then case_prefix n else ''image''))"

text \<open>
  A name that \<open>forEach\<close> can place: a string whose prefix is not a key of
  \<open>Object.prototype\<close>.
\<close>

definition bucketable :: "folder_name \<Rightarrow> bool" where
  "bucketable c = (case c of None \<Rightarrow> False | Some n \<Rightarrow> case_prefix n \<notin> set object_prototype_keys)"

section \<open>Google Drive integration (\<open>googledrive.js\<close>)\<close>

text \<open>
  \<open>gapi.client.drive.files.list\<close>: from the query \<open>q\<close> and the optional \<open>pageToken\<close>
  of the request to one page of files (id and name) and, when the result has more
  pages, a \<open>nextPageToken\<close>; a failed \<open>initializeGoogleDrive\<close> is a failure of the
  call. \<open>listFilesInFolder\<close> sends no \<open>pageToken\<close>. In its template literal the dollar
  signs are escaped, so the query is the text as written and the arguments \<open>folderId\<close>
  and \<open>substring\<close> do not enter it.
\<close>

record file_list =
  files :: "(string \<times> string) list"
  nextPageToken :: "string option"

type_synonym drive_api = "string \<Rightarrow> string option \<Rightarrow> error + file_list"

definition quoted :: "string \<Rightarrow> string" where
  "quoted s = CHR 0x27 # s @ [CHR 0x27]"

definition listFilesInFolder :: "drive_api \<Rightarrow> string \<Rightarrow> string \<Rightarrow> error + string list" where
  "listFilesInFolder api folderId substring =
     (case api (quoted ''${folderId}'' @ '' in parents and name contains ''
                @ quoted ''${substring}'' @ '' and mimeType!=''
                @ quoted ''application/vnd.google-apps.folder'' @ '' and trashed=false'')
             None of
        Inl e \<Rightarrow> Inl e
      | Inr result \<Rightarrow> Inr (map snd (files result)))"

section \<open>Dropbox integration (\<open>README.md\<close>)\<close>

record dropbox_entry =
  entry_tag :: string
  entry_name :: string
  path_lower :: string

record list_folder_result =
  entries :: "dropbox_entry list"
  has_more :: bool
  cursor :: string

record dropbox =
  filesListFolder :: "string \<Rightarrow> error + list_folder_result"
  filesListFolderContinue :: "string \<Rightarrow> error + list_folder_result"

text \<open>
  The \<open>while (response.result.has_more)\<close> loop of \<open>listAllEntries\<close>. A backend that
  announces more entries for ever keeps it running: \<open>None\<close> is the call that never
  returns.
\<close>

partial_function (option) list_continue ::
  "dropbox \<Rightarrow> list_folder_result \<Rightarrow> dropbox_entry list \<Rightarrow> (error + dropbox_entry list) option"
where
  "list_continue dbx response acc =
     (if has_more response then
        (case filesListFolderContinue dbx (cursor response) of
           Inl e \<Rightarrow> Some (Inl e)
         | Inr response' \<Rightarrow> list_continue dbx response' (acc @ entries response'))
      else Some (Inr acc))"

definition listAllEntries ::
  "dropbox \<Rightarrow> string \<Rightarrow> string \<Rightarrow> (error + dropbox_entry list) option" where
  "listAllEntries dbx rootDir path =
     (case filesListFolder dbx (rootDir @ path) of
        Inl e \<Rightarrow> Some (Inl e)
      | Inr response \<Rightarrow> list_continue dbx response (entries response))"

definition listFolders :: "dropbox \<Rightarrow> string \<Rightarrow> string \<Rightarrow> (error + string list) option" where
  "listFolders dbx rootDir path =
     (case listAllEntries dbx rootDir path of
        None \<Rightarrow> None
      | Some (Inl e) \<Rightarrow> Some (Inl e)
      | Some (Inr es) \<Rightarrow>
          Some (Inr (map entry_name (filter (\<lambda>entry. entry_tag entry = ''folder'') es))))"

text \<open>
  A paginated listing as a backend serves it: \<open>serves dbx response later\<close> holds when the
  continuation of \<open>response\<close> delivers exactly the pages \<open>later\<close>, the last of which
  announces no further entries.
\<close>

fun serves :: "dropbox \<Rightarrow> list_folder_result \<Rightarrow> list_folder_result list \<Rightarrow> bool" where
  "serves dbx response [] = (\<not> has_more response)"
| "serves dbx response (page # later) =
     (has_more response \<and> filesListFolderContinue dbx (cursor response) = Inr page
      \<and> serves dbx page later)"

section \<open>The complete listing of the specification\<close>

text \<open>
  What a listing that exhausts pagination returns, for comparison: the items of the
  page at \<open>url\<close> followed by those of every page reached through the continuation
  links. The number bounds the pages read; \<open>None\<close> when it does not suffice.
\<close>

fun follow_links :: "graph_client \<Rightarrow> nat \<Rightarrow> string \<Rightarrow> (error + drive_item list) option" where
  "follow_links client 0 url = None"
| "follow_links client (Suc k) url =
     (case client url of
        Inl e \<Rightarrow> Some (Inl e)
      | Inr response \<Rightarrow>
          (case next_link response of
             None \<Rightarrow> Some (Inr (resp_value response))
           | Some link \<Rightarrow>
               (case follow_links client k link of
                  Some (Inr later) \<Rightarrow> Some (Inr (resp_value response @ later))
                | other \<Rightarrow> other)))"

section \<open>The threshold table of the specification\<close>

text \<open>
  The required asset counts as the specification lists them: image and hybrid 3, audio,
  video and text 2, no entry for any other type.
\<close>

definition required_count :: "string \<Rightarrow> nat option" where
  "required_count t =
     (if t = ''image'' \<or> t = ''hybrid'' then Some 3
      else if t = ''audio'' \<or> t = ''video'' \<or> t = ''text'' then Some 2
      else None)"

section \<open>Performance helpers (\<open>perfHelpers.js\<close>)\<close>

definition CASE_DIRS :: "string list" where
  "CASE_DIRS =
     [''video-test1'', ''video-test2'', ''audio-test1'', ''audio-test2'', ''text-sample'',
      ''image-test'']"

definition ALL_FILES :: "string list" where
  "ALL_FILES =
     [''video-test1-a.mp4'', ''video-test1-b.mp4'', ''video-test2-a.mp4'',
      ''audio-test1-a.mp3'', ''audio-test1-b.mp3'', ''audio-test2-a.mp3'',
      ''image-test-a.jpg'', ''image-test-b.jpg'', ''text-sample-a.txt'']"

text \<open>
  A JavaScript object with string keys is an association list: \<open>Object.keys\<close> lists the
  keys in insertion order (the keys here are never integer-like), and assigning to an
  existing key keeps its place.
\<close>

type_synonym 'v js_object = "(string \<times> 'v) list"

fun assign :: "'v js_object \<Rightarrow> string \<Rightarrow> 'v \<Rightarrow> 'v js_object" where
  "assign [] k v = [(k, v)]"
| "assign ((k', v') # kvs) k v =
     (if k' = k then (k, v) # kvs else (k', v') # assign kvs k v)"

definition SIZE_LABEL_MAP :: "string js_object" where
  "SIZE_LABEL_MAP = [(''a'', ''small''), (''b'', ''medium''), (''c'', ''large'')]"

text \<open>
  \<open>fileName.split("-")[1].charAt(0)\<close>: element 1 of the split is \<open>undefined\<close> for a name
  without a hyphen, and \<open>charAt\<close> on it raises; \<open>charAt(0)\<close> of the empty string is the
  empty string.
\<close>

definition size_key :: "string \<Rightarrow> error + string" where
  "size_key fileName =
     (case split_on CHR ''-'' fileName of
        _ # segment # _ \<Rightarrow> Inr (take 1 segment)
      | _ \<Rightarrow> Inl TypeError)"

text \<open>
  \<open>SIZE_LABEL_MAP[key] || "unknown"\<close>: the key has at most one character, so it never
  names an inherited member, and every label of the table is a non-empty string.
\<close>

definition size_label :: "string \<Rightarrow> string" where
  "size_label key = (case map_of SIZE_LABEL_MAP key of None \<Rightarrow> ''unknown'' | Some l \<Rightarrow> l)"

text \<open>The callback of \<open>ALL_FILES.reduce\<close>, folded from the left over the manifest.\<close>

fun size_map_reduce :: "string js_object \<Rightarrow> string list \<Rightarrow> error + string js_object" where
  "size_map_reduce m [] = Inr m"
| "size_map_reduce m (fileName # rest) =
     (case size_key fileName of
        Inl e \<Rightarrow> Inl e
      | Inr key \<Rightarrow> size_map_reduce (assign m fileName (size_label key)) rest)"

definition SIZE_MAP :: "error + string js_object" where
  "SIZE_MAP = size_map_reduce [] ALL_FILES"

text \<open>
  The naming convention of the manifest, for comparison: the letter between the last
  hyphen and the extension (\<open>video-test1-a.mp4\<close> carries \<open>a\<close>), when the name has that
  shape.
\<close>

definition letter_before_extension :: "string \<Rightarrow> char option" where
  "letter_before_extension fileName =
     (case drop 1 (dropWhile (\<lambda>c. c \<noteq> CHR ''.'') (rev fileName)) of
        letter # hyphen # _ \<Rightarrow> (if hyphen = CHR ''-'' then Some letter else None)
      | _ \<Rightarrow> None)"

section \<open>The metrics hook (\<open>usePerformanceMetrics\<close>)\<close>

subsection \<open>Built-in string and number operations\<close>

text \<open>\<open>xs.join(sep)\<close>\<close>

fun join_with :: "string \<Rightarrow> string list \<Rightarrow> string" where
  "join_with sep [] = []"
| "join_with sep [x] = x"
| "join_with sep (x # y # ys) = x @ sep @ join_with sep (y # ys)"

text \<open>
  \<open>routeKey.replace(/.*case/, "")\<close>: the leftmost match is removed. \<open>.\<close> does not match a
  line terminator and \<open>.*\<close> is greedy, so the match runs from the start of the first line
  that contains \<open>case\<close> to the end of the last \<open>case\<close> of that line.
\<close>

definition is_line_terminator :: "char \<Rightarrow> bool" where
  "is_line_terminator c = (c = CHR 0x0A \<or> c = CHR 0x0D)"

fun after_last_case :: "string \<Rightarrow> string option" where
  "after_last_case [] = None"
| "after_last_case (c # cs) =
     (case after_last_case cs of
        Some r \<Rightarrow> Some r
      | None \<Rightarrow> (if prefix ''case'' (c # cs) then Some (drop 4 (c # cs)) else None))"

function replace_case :: "string \<Rightarrow> string" where
  "replace_case s =
     (let line = takeWhile (\<lambda>c. \<not> is_line_terminator c) s;
          rest = dropWhile (\<lambda>c. \<not> is_line_terminator c) s
      in case after_last_case line of
           Some r \<Rightarrow> r @ rest
         | None \<Rightarrow> (case rest of [] \<Rightarrow> line | t # after \<Rightarrow> line @ t # replace_case after))"
  by pat_completeness auto
termination
proof (relation "measure length")
  fix s line rest t after
  assume "rest = dropWhile (\<lambda>c. \<not> is_line_terminator c) s" and "rest = t # after"
  then have "length (t # after) \<le> length s"
    by (metis length_dropWhile_le)
  then show "(after, s) \<in> measure length" by simp
qed simp

text \<open>
  \<open>parseInt(s, 10)\<close>: leading white space is skipped, then an optional sign, then the
  longest run of decimal digits; \<open>NaN\<close> (here \<open>None\<close>) when there is no digit.
\<close>

definition is_white_space :: "char \<Rightarrow> bool" where
  "is_white_space c =
     (c \<in> set [CHR 0x09, CHR 0x0A, CHR 0x0B, CHR 0x0C, CHR 0x0D, CHR '' ''])"

definition digit_of :: "char \<Rightarrow> nat option" where
  "digit_of = map_of (zip ''0123456789'' [0, 1, 2, 3, 4, 5, 6, 7, 8, 9])"

definition digits_value :: "string \<Rightarrow> nat" where
  "digits_value ds =
     foldl (\<lambda>a c. 10 * a + (case digit_of c of None \<Rightarrow> 0 | Some d \<Rightarrow> d)) 0 ds"

definition parseInt :: "string \<Rightarrow> int option" where
  "parseInt s =
     (let t = dropWhile is_white_space s;
          negative = (case t of [] \<Rightarrow> False | c # _ \<Rightarrow> c = CHR ''-'');
          u = (case t of [] \<Rightarrow> [] | c # r \<Rightarrow> if c = CHR ''-'' \<or> c = CHR ''+'' then r else t);
          ds = takeWhile (\<lambda>c. digit_of c \<noteq> None) u
      in if ds = [] then None
         else Some (if negative then - int (digits_value ds) else int (digits_value ds)))"

text \<open>The decimal text of a non-negative integer, as \<open>join\<close> prints a number.\<close>

fun show_nat :: "nat \<Rightarrow> string" where
  "show_nat n =
     (if n < 10 then [''0123456789'' ! n]
      else show_nat (n div 10) @ [''0123456789'' ! (n mod 10)])"

subsection \<open>The browser and the parameters of the hook\<close>

text \<open>
  A response of \<open>fetch\<close>: its header entries, and the size of the body when \<open>blob()\<close>
  delivers it.
\<close>

record response =
  headers :: "(string \<times> string) list"
  blob_size :: "nat option"

text \<open>
  The browser as the hook sees it. Requests are numbered through the session: request
  \<open>n\<close> to \<open>url\<close> is answered by \<open>fetch b n url\<close> (\<open>None\<close> when the promise rejects) and
  takes \<open>elapsed b n\<close> milliseconds between the two readings of \<open>performance.now()\<close>;
  times are exact rationals. \<open>usedJSHeapSize b n\<close> is
  \<open>performance.memory?.usedJSHeapSize || 0\<close> read when \<open>n\<close> requests have completed.
  \<open>toFixed2\<close> is \<open>Number.prototype.toFixed(2)\<close> and \<open>native_text\<close> the text the engine
  prints for an inherited member of an object.
\<close>

record browser =
  fetch :: "nat \<Rightarrow> string \<Rightarrow> response option"
  elapsed :: "nat \<Rightarrow> rat"
  usedJSHeapSize :: "nat \<Rightarrow> nat"
  toFixed2 :: "rat \<Rightarrow> string"
  native_text :: "string \<Rightarrow> string"

text \<open>
  The parameters \<open>providerName\<close> and \<open>buildUrls\<close> of the hook, and \<open>surveyRoutes\<close>, which
  the hook imports from the routes module of the hosting survey.
\<close>

record hook =
  providerName :: string
  buildUrls :: "string \<Rightarrow> error + string list"
  surveyRoutes :: "string list"

subsection \<open>Formatting helpers (\<open>perfHelpers.js\<close>)\<close>

definition humanFileSize :: "browser \<Rightarrow> int \<Rightarrow> string" where
  "humanFileSize b n =
     (if n < 0 then ''0 KB''
      else if n \<ge> 1000000 then toFixed2 b (of_int n / 1000000) @ '' MB''
      else toFixed2 b (of_int n / 1024) @ '' KB'')"

definition humanMemoryDelta :: "browser \<Rightarrow> int \<Rightarrow> string" where
  "humanMemoryDelta b n = toFixed2 b (of_int n / (1024 * 1024)) @ '' MB''"

subsection \<open>Measuring one URL\<close>

text \<open>
  A value of a metric record: a string, a number (only \<open>headerSizeBytes\<close>), or an
  inherited member read through \<open>SIZE_MAP[...]\<close>.
\<close>

datatype cell = S string | N nat | Member string

type_synonym metric = "cell js_object"

definition cell_text :: "browser \<Rightarrow> cell \<Rightarrow> string" where
  "cell_text b c = (case c of S s \<Rightarrow> s | N n \<Rightarrow> show_nat n | Member k \<Rightarrow> native_text b k)"

text \<open>\<open>SIZE_MAP[name] || "unknown"\<close>, on the table the module exports.\<close>

definition size_of_file :: "string \<Rightarrow> cell" where
  "size_of_file name =
     (case map_of (case SIZE_MAP of Inl _ \<Rightarrow> [] | Inr m \<Rightarrow> m) name of
        Some l \<Rightarrow> (if l = [] then S ''unknown'' else S l)
      | None \<Rightarrow> (if name \<in> set object_prototype_keys then Member name else S ''unknown''))"

definition ITER :: nat where
  "ITER = 7"

text \<open>The variables \<open>sumFetch\<close>, \<open>count\<close> and \<open>headerSize\<close> of the loop, all 0 at its start.\<close>

record timing =
  sumFetch :: rat
  countN :: nat
  headerSize :: nat

definition timing_start :: timing where
  "timing_start = \<lparr>sumFetch = 0, countN = 0, headerSize = 0\<rparr>"

definition headers_text :: "(string \<times> string) list \<Rightarrow> string" where
  "headers_text hs = join_with [CHR 0x0D, CHR 0x0A] (map (\<lambda>(k, v). k @ '': '' @ v) hs)"

text \<open>
  The loop \<open>for (let i = 0; i < ITER; i++)\<close>: \<open>i\<close> is the cycle, \<open>n\<close> the number of the
  next request. A rejected \<open>fetch\<close> takes the \<open>continue\<close>.
\<close>

function timing_loop :: "browser \<Rightarrow> string \<Rightarrow> nat \<Rightarrow> nat \<Rightarrow> timing \<Rightarrow> nat \<times> timing" where
  "timing_loop b url i n t =
     (if i < ITER then
        (case fetch b n url of
           None \<Rightarrow> timing_loop b url (Suc i) (Suc n) t
         | Some resp \<Rightarrow>
             timing_loop b url (Suc i) (Suc n)
               (if i = 0 then t\<lparr>headerSize := length (headers_text (headers resp))\<rparr>
                else t\<lparr>sumFetch := sumFetch t + elapsed b n, countN := Suc (countN t)\<rparr>))
      else (n, t))"
  by pat_completeness auto
termination
  by (relation "measure (\<lambda>(b, url, i, n, t). ITER - i)") auto

declare timing_loop.simps [simp del]

definition avgFetch :: "timing \<Rightarrow> rat" where
  "avgFetch t = (if countN t > 0 then sumFetch t / of_nat (countN t) else 0)"

text \<open>The body fetch after the loop: \<open>blobSize\<close> stays 0 when the fetch or \<open>blob()\<close> fails.\<close>

definition blobSize :: "browser \<Rightarrow> nat \<Rightarrow> string \<Rightarrow> nat" where
  "blobSize b n url =
     (case fetch b n url of
        None \<Rightarrow> 0
      | Some resp \<Rightarrow> (case blob_size resp of None \<Rightarrow> 0 | Some bytes \<Rightarrow> bytes))"

definition throughputKBps :: "rat \<Rightarrow> rat \<Rightarrow> rat" where
  "throughputKBps payloadKB avg = (if avg > 0 then (payloadKB * 1000) / avg else 0)"

text \<open>
  The body of \<open>for (const url of urls)\<close> after the guard: the timing loop, the body
  fetch between two heap readings, and the record pushed to \<open>newMetrics\<close>. Returns the
  record and the number of the next request.
\<close>

definition measure_url ::
  "hook \<Rightarrow> browser \<Rightarrow> string \<Rightarrow> string \<times> string \<Rightarrow> string \<Rightarrow> nat \<Rightarrow> metric \<times> nat" where
  "measure_url h b routeKey loc url n =
     (let (n', t) = timing_loop b url 0 n timing_start;
          memBefore = usedJSHeapSize b n';
          bytes = blobSize b n' url;
          memAfter = usedJSHeapSize b (Suc n');
          memDelta = max (int memAfter - int memBefore) 0;
          payloadKB = of_nat bytes / 1024
      in ([(''route'', S routeKey),
           (''storageProvider'', S (providerName h)),
           (''country'', S (fst loc)),
           (''continent'', S (snd loc)),
           (''fileURL'', S url),
           (''fileName'', S (last (split_on CHR ''/'' url))),
           (''fileType'', S (toUpperCase (last (split_on CHR ''.'' url)))),
           (''size'', size_of_file (last (split_on CHR ''/'' url))),
           (''fileSize'', S (humanFileSize b (int bytes))),
           (''fetchTimeMs'', S (toFixed2 b (avgFetch t))),
           (''throughputKBps'', S (toFixed2 b (throughputKBps payloadKB (avgFetch t)))),
           (''payloadKB'', S (toFixed2 b payloadKB)),
           (''headerSizeBytes'', N (headerSize t)),
           (''memoryDelta'', S (humanMemoryDelta b memDelta))],
          Suc n'))"

subsection \<open>The session\<close>

text \<open>
  A run of \<open>capture\<close>, suspended at one of its awaits: its argument \<open>routeKey\<close>, the
  \<open>location\<close> of the render that started it, the URLs its loop has still to visit, the
  URL whose measurement is in flight (\<open>None\<close> while the task waits for \<open>buildUrls\<close>) and
  its local array \<open>newMetrics\<close>.
\<close>

record task =
  task_route :: string
  task_location :: "string \<times> string"
  pending :: "string list"
  in_flight :: "string option"
  newMetrics :: "metric list"

text \<open>
  The state of one mounted hook: the prop \<open>currentRoute\<close>, the React state \<open>location\<close> and
  \<open>allMetrics\<close>, the refs \<open>recorded\<close> and \<open>hasDownloaded\<close>, and the captures in flight.
  \<open>downloads\<close> collects the files materialised by \<open>a.click()\<close> (name and content) and
  \<open>requests\<close> counts the requests issued so far.
\<close>

record session =
  currentRoute :: string
  location :: "string \<times> string"
  recorded :: "string set"
  allMetrics :: "metric list"
  hasDownloaded :: bool
  downloads :: "(string \<times> string) list"
  requests :: nat
  tasks :: "task list"

text \<open>
  \<open>capture(routeKey)\<close> up to \<open>await buildUrls(caseDir)\<close>. \<open>None\<close> when it returns at
  \<open>if (!caseDir) return\<close> or when \<open>buildUrls\<close> rejects: no state is touched then.
\<close>

definition capture_start :: "hook \<Rightarrow> string \<Rightarrow> string \<times> string \<Rightarrow> task option" where
  "capture_start h routeKey loc =
     (case parseInt (replace_case routeKey) of
        None \<Rightarrow> None
      | Some k \<Rightarrow>
          (let idx = k - 1 in
           if idx < 0 \<or> idx \<ge> int (length CASE_DIRS) then None
           else if CASE_DIRS ! nat idx = [] then None
           else
             (case buildUrls h (CASE_DIRS ! nat idx) of
                Inl e \<Rightarrow> None
              | Inr urls \<Rightarrow>
                  Some \<lparr>task_route = routeKey, task_location = loc, pending = urls,
                        in_flight = None, newMetrics = []\<rparr>)))"

text \<open>The effect that captures metrics: \<open>surveyRoutes.find\<close>, then \<open>capture(matched)\<close>.\<close>

definition capture_effect :: "hook \<Rightarrow> session \<Rightarrow> session" where
  "capture_effect h s =
     (case find (\<lambda>r. suffix r (currentRoute s)) (surveyRoutes h) of
        None \<Rightarrow> s
      | Some matched \<Rightarrow>
          (if matched = [] then s
           else (case capture_start h matched (location s) of
                   None \<Rightarrow> s
                 | Some t \<Rightarrow> s\<lparr>tasks := tasks s @ [t]\<rparr>)))"

text \<open>
  The text of the report: \<open>header + rows\<close>. A key that a record lacks reads \<open>undefined\<close>,
  which \<open>join\<close> prints as the empty string. The effect only builds the report of a
  non-empty log.
\<close>

definition csv_row :: "browser \<Rightarrow> string list \<Rightarrow> metric \<Rightarrow> string" where
  "csv_row b headerKeys m =
     join_with '','' (map (\<lambda>k. case map_of m k of None \<Rightarrow> [] | Some c \<Rightarrow> cell_text b c) headerKeys)"

definition csv_document :: "browser \<Rightarrow> metric list \<Rightarrow> string" where
  "csv_document b ms =
     (case ms of
        [] \<Rightarrow> []
      | first # _ \<Rightarrow>
          (let headerKeys = map fst first
           in (join_with '','' headerKeys @ [CHR 0x0A])
              @ join_with [CHR 0x0A] (map (csv_row b headerKeys) ms)))"

definition report_name :: "hook \<Rightarrow> string" where
  "report_name h = providerName h @ ''_complete_metrics.csv''"

text \<open>The effect that downloads the CSV when the survey ends.\<close>

definition export_effect :: "hook \<Rightarrow> browser \<Rightarrow> session \<Rightarrow> session" where
  "export_effect h b s =
     (if suffix ''/survey/end'' (currentRoute s) \<and> allMetrics s \<noteq> [] \<and> \<not> hasDownloaded s
      then s\<lparr>downloads := downloads s @ [(report_name h, csv_document b (allMetrics s))],
              hasDownloaded := True\<rparr>
      else s)"

text \<open>
  The guard of the loop, \<open>if (recorded.current.has(url)) continue\<close>, run over the URLs
  still to visit: the first URL that is not in the set, with the URLs after it.
\<close>

fun next_claim :: "string list \<Rightarrow> string set \<Rightarrow> string option \<times> string list" where
  "next_claim [] seen = (None, [])"
| "next_claim (url # urls) seen =
     (if url \<in> seen then next_claim urls seen else (Some url, urls))"

text \<open>
  The end of a round of the loop, when the awaited requests of the URL in flight have
  completed: the record is built and pushed to \<open>newMetrics\<close>. The seven timed requests
  and the body request of the round take the next eight request numbers; the browser
  being arbitrary, this numbering excludes no outcome. A task resumed from
  \<open>await buildUrls\<close> has no URL in flight and nothing to push.
\<close>

definition complete_measurement :: "hook \<Rightarrow> browser \<Rightarrow> task \<Rightarrow> nat \<Rightarrow> metric list \<times> nat" where
  "complete_measurement h b t n =
     (case in_flight t of
        None \<Rightarrow> (newMetrics t, n)
      | Some url \<Rightarrow>
          (case measure_url h b (task_route t) (task_location t) url n of
             (m, n') \<Rightarrow> (newMetrics t @ [m], n')))"

text \<open>
  \<open>Advance k\<close> resumes task \<open>k\<close> and runs it until it suspends again; between two awaits
  a task runs alone. Resumed with a measurement in flight, the task first pushes the
  record of that URL. Then the loop goes on: it skips the URLs found in \<open>recorded\<close>; the
  first URL that is not there is added by \<open>recorded.current.add(url)\<close> and its first
  request is issued, at which the task suspends with this URL in flight (all the awaits
  of a round lie between \<open>add\<close> and \<open>push\<close> and touch local variables only, so they are one
  suspension here, during which any other event can happen). When no URL is left,
  \<open>setAllMetrics\<close> runs and the task ends; the new \<open>allMetrics\<close> is a dependency of the
  export effect, which runs again.
\<close>

definition advance :: "hook \<Rightarrow> browser \<Rightarrow> nat \<Rightarrow> session \<Rightarrow> session" where
  "advance h b k s =
     (if k \<ge> length (tasks s) then s
      else
        (let t = tasks s ! k in
         case complete_measurement h b t (requests s) of
           (pushed, n') \<Rightarrow>
             (case next_claim (pending t) (recorded s) of
                (Some url, rest) \<Rightarrow>
                  s\<lparr>recorded := insert url (recorded s),
                    requests := n',
                    tasks := (tasks s)
                      [k := t\<lparr>pending := rest, in_flight := Some url, newMetrics := pushed\<rparr>]\<rparr>
              | (None, rest) \<Rightarrow>
                  export_effect h b
                    (s\<lparr>requests := n',
                       allMetrics := allMetrics s @ pushed,
                       tasks := take k (tasks s) @ drop (Suc k) (tasks s)\<rparr>))))"

text \<open>
  The events of a session. An effect runs when one of its dependencies has changed: a
  new \<open>currentRoute\<close> runs the capture effect and the export effect, a new \<open>location\<close>
  (the geolocation lookup has resolved) runs the capture effect. \<open>Advance k\<close> is the
  scheduler resuming task \<open>k\<close>: captures in flight interleave at their suspension points
  in any order.
\<close>

datatype event = Navigate string | GeoResolved "string \<times> string" | Advance nat

definition mount :: "hook \<Rightarrow> browser \<Rightarrow> string \<Rightarrow> session" where
  "mount h b route =
     export_effect h b
       (capture_effect h
          \<lparr>currentRoute = route, location = (''Unknown'', ''Unknown''), recorded = {},
           allMetrics = [], hasDownloaded = False, downloads = [], requests = 0,
           tasks = []\<rparr>)"

fun step :: "hook \<Rightarrow> browser \<Rightarrow> session \<Rightarrow> event \<Rightarrow> session" where
  "step h b s (Navigate route) =
     (if route = currentRoute s then s
      else export_effect h b (capture_effect h (s\<lparr>currentRoute := route\<rparr>)))"
| "step h b s (GeoResolved loc) = capture_effect h (s\<lparr>location := loc\<rparr>)"
| "step h b s (Advance k) = advance h b k s"

definition run :: "hook \<Rightarrow> browser \<Rightarrow> string \<Rightarrow> event list \<Rightarrow> session" where
  "run h b route events = foldl (step h b) (mount h b route) events"

text \<open>
  The keys of the object literal pushed to \<open>newMetrics\<close>, in the order written, and the
  \<open>fileURL\<close> of a record.
\<close>

definition metric_keys :: "string list" where
  "metric_keys =
     [''route'', ''storageProvider'', ''country'', ''continent'', ''fileURL'', ''fileName'',
      ''fileType'', ''size'', ''fileSize'', ''fetchTimeMs'', ''throughputKBps'', ''payloadKB'',
      ''headerSizeBytes'', ''memoryDelta'']"

definition fileURL :: "metric \<Rightarrow> cell option" where
  "fileURL m = map_of m ''fileURL''"

text \<open>Every record of the session: those in the log and those still local to a task.\<close>

definition all_records :: "session \<Rightarrow> metric list" where
  "all_records s = allMetrics s @ concat (map newMetrics (tasks s))"

text \<open>
  The URLs a task holds, as \<open>fileURL\<close> values: those of its records and the one whose
  measurement is in flight. \<open>claimed\<close> lists them for the whole session, the log first.
\<close>

definition task_urls :: "task \<Rightarrow> cell option list" where
  "task_urls t =
     map fileURL (newMetrics t)
     @ (case in_flight t of None \<Rightarrow> [] | Some url \<Rightarrow> [Some (S url)])"

definition claimed :: "session \<Rightarrow> cell option list" where
  "claimed s = map fileURL (allMetrics s) @ concat (map task_urls (tasks s))"

text \<open>The URLs whose measurement is in flight in some task, as \<open>fileURL\<close> values.\<close>

definition flights :: "session \<Rightarrow> cell option list" where
  "flights s =
     concat (map (\<lambda>t. case in_flight t of None \<Rightarrow> [] | Some url \<Rightarrow> [Some (S url)]) (tasks s))"

text \<open>The columns of the report as the data model of the specification names them.\<close>

definition spec_columns :: "string list" where
  "spec_columns =
     [''route'', ''provider'', ''country'', ''continent'', ''fileURL'', ''fileName'',
      ''fileType'', ''sizeLabel'', ''fileSizeHuman'', ''fetchTimeMs'', ''throughputKBps'',
      ''payloadKB'', ''headerSizeBytes'', ''memoryDeltaHuman'']"

text \<open>
  What every reachable session satisfies: no URL is claimed twice (by two records,
  logged or still local to a task, by two measurements in flight, or by a record and a
  measurement in flight), every claimed URL is in \<open>recorded\<close>, every record has the keys
  of the literal, and the flag \<open>hasDownloaded\<close> is set exactly when one report, built
  from a non-empty initial part of the log, has been materialised.
\<close>

definition session_inv :: "hook \<Rightarrow> browser \<Rightarrow> session \<Rightarrow> bool" where
  "session_inv h b s \<longleftrightarrow>
     distinct (claimed s)
     \<and> (\<forall>c \<in> set (claimed s). \<exists>u \<in> recorded s. c = Some (S u))
     \<and> (\<forall>m \<in> set (all_records s). map fst m = metric_keys)
     \<and> (if hasDownloaded s
        then \<exists>ms. ms \<noteq> [] \<and> prefix ms (allMetrics s)
               \<and> downloads s = [(report_name h, csv_document b ms)]
        else downloads s = [])"

text \<open>The first line of a document.\<close>

definition header_line :: "string \<Rightarrow> string" where
  "header_line doc = takeWhile (\<lambda>c. c \<noteq> CHR 0x0A) doc"

subsection \<open>The timing rule of the specification\<close>

text \<open>
  The header overhead as the specification words it: the byte length of the response
  headers written as \<open>key: value\<close> lines joined by CRLF, that is, for every header its
  key, two bytes and its value, and two bytes between consecutive lines.

  The elapsed times that count, as the specification words them: those of the cycles 1
  to 6 whose request succeeded (the loop starts at request \<open>n\<close>, so cycle \<open>i\<close> is request
  \<open>n + i\<close>), and their arithmetic mean, 0 when there is none.
\<close>

definition header_bytes :: "(string \<times> string) list \<Rightarrow> nat" where
  "header_bytes hs =
     sum_list (map (\<lambda>(k, v). length k + 2 + length v) hs) + 2 * (length hs - 1)"

definition timed_cycles :: "browser \<Rightarrow> string \<Rightarrow> nat \<Rightarrow> rat list" where
  "timed_cycles b url n =
     map (\<lambda>i. elapsed b (n + i)) (filter (\<lambda>i. fetch b (n + i) url \<noteq> None) [1..<7])"

definition mean :: "rat list \<Rightarrow> rat" where
  "mean xs = (if xs = [] then 0 else sum_list xs / of_nat (length xs))"

section \<open>Fixtures: concrete backends used to evaluate the model\<close>

definition file_item :: "string \<Rightarrow> drive_item" where
  "file_item n = \<lparr>item_name = n, has_folder = False, has_file = True\<rparr>"

definition folder_item :: "string \<Rightarrow> drive_item" where
  "folder_item n = \<lparr>item_name = n, has_folder = True, has_file = False\<rparr>"

text \<open>A drive in which every folder holds the same three files.\<close>

definition three_files_client :: graph_client where
  "three_files_client url =
     Inr \<lparr>resp_value = [file_item ''a.jpg'', folder_item ''old'', file_item ''b.jpg'',
                         file_item ''c.jpg''],
          next_link = None\<rparr>"

text \<open>
  A drive in which the folder of case \<open>audio-a\<close> is missing (the request fails with
  \<open>itemNotFound\<close>) and every other folder holds two files.
\<close>

definition missing_folder_client :: graph_client where
  "missing_folder_client url =
     (if url = ''/root:/dev//gallery/cases/audio-a:/children''
      then Inl (ApiError ''itemNotFound'')
      else Inr \<lparr>resp_value = [file_item ''1.mp3'', file_item ''2.mp3''], next_link = None\<rparr>)"

text \<open>A storage provider whose URL builder lists the manifest files of the case.\<close>

definition sample_hook :: hook where
  "sample_hook =
     \<lparr>providerName = ''aws'',
      buildUrls = (\<lambda>caseDir.
         Inr (map (\<lambda>fileName. ''https://bucket.example/'' @ caseDir @ ''/'' @ fileName)
                (filter (prefix (caseDir @ ''-'')) ALL_FILES))),
      surveyRoutes = [''/survey/case1'', ''/survey/case2'', ''/survey/case6'']\<rparr>"

text \<open>
  A browser in which every third request fails (requests 0, 3, 6, ...), request \<open>n\<close>
  takes \<open>n\<close> milliseconds and every body has 2048 bytes; and one in which every request
  fails.
\<close>

definition flaky_browser :: browser where
  "flaky_browser =
     \<lparr>fetch = (\<lambda>n url. if n mod 3 = 0 then None
                        else Some \<lparr>headers = [(''content-type'', ''video/mp4'')],
                                   blob_size = Some 2048\<rparr>),
      elapsed = (\<lambda>n. of_nat n),
      usedJSHeapSize = (\<lambda>n. 1000 * n),
      toFixed2 = (\<lambda>q. ''0.00''),
      native_text = (\<lambda>k. ''function'')\<rparr>"

definition offline_browser :: browser where
  "offline_browser = flaky_browser\<lparr>fetch := (\<lambda>n url. None)\<rparr>"

text \<open>
  A survey with the single case view \<open>/survey/case5\<close> (the directory \<open>text-sample\<close>, one
  file). In \<open>three_visits\<close> the capture started at mount measures the file and commits,
  then the terminal route is entered three times. In \<open>reentry\<close> the geolocation resolves
  while the measurement of the first capture is in flight, so a second capture of the
  same route starts and runs to its end before the first resumes; then the route is
  left and entered again and a third capture runs. In \<open>two_files\<close>, for \<open>sample_hook\<close>
  mounted at \<open>/survey/case1\<close>, the capture measures the two files of \<open>video-test1\<close> and
  commits, then the survey ends.
\<close>

definition text_hook :: hook where
  "text_hook = sample_hook\<lparr>surveyRoutes := [''/survey/case5'']\<rparr>"

definition three_visits :: "event list" where
  "three_visits =
     [Advance 0, Advance 0, Navigate ''/survey/end'', Navigate ''/survey/thanks'',
      Navigate ''/survey/end'', Navigate ''/survey/thanks'', Navigate ''/survey/end'']"

definition reentry :: "event list" where
  "reentry =
     [Advance 0, GeoResolved (''Norway'', ''Europe''), Advance 1, Advance 0,
      Navigate ''/survey/intro'', Navigate ''/survey/case5'', Advance 0]"

definition two_files :: "event list" where
  "two_files = [Advance 0, Advance 0, Advance 0, Navigate ''/survey/end'']"

text \<open>
  A drive whose folder \<open>gallery/cases\<close> lists its two case folders on two pages, and a
  Google Drive folder whose three files come on two pages.
\<close>

definition paged_client :: graph_client where
  "paged_client url =
     (if url = ''/root:/dev/gallery/cases:/children''
      then Inr \<lparr>resp_value = [folder_item ''image-1''],
                next_link = Some ''/root:/dev/gallery/cases:/children?$skiptoken=2''\<rparr>
      else if url = ''/root:/dev/gallery/cases:/children?$skiptoken=2''
      then Inr \<lparr>resp_value = [folder_item ''audio-2''], next_link = None\<rparr>
      else Inl (ApiError ''itemNotFound''))"

definition paged_api :: drive_api where
  "paged_api q pageToken =
     (if pageToken = None
      then Inr \<lparr>files = [(''id1'', ''a.jpg''), (''id2'', ''b.jpg'')], nextPageToken = Some ''p2''\<rparr>
      else Inr \<lparr>files = [(''id3'', ''c.jpg'')], nextPageToken = None\<rparr>)"

text \<open>
  A case directory with one folder per bucket and more, every folder holding three
  blobs, and a shuffle that reverses.
\<close>

definition full_container :: container_client where
  "full_container =
     \<lparr>listBlobsByHierarchy = (\<lambda>delimiter p. Inr []),
      listBlobsFlat = (\<lambda>p. Inr [p @ ''/1'', p @ ''/2'', p @ ''/3''])\<rparr>"

definition reversing_shuffle :: "unit \<Rightarrow> folder_name list \<Rightarrow> folder_name list \<times> unit" where
  "reversing_shuffle g xs = (rev xs, g)"

definition sample_cases :: "string list" where
  "sample_cases =
     [''text-1'', ''Audio-1'', ''image-1'', ''pdf-1'', ''constructor-1'', ''video-1'',
      ''HYBRID-1'', ''audio-2'']"

section \<open>Case validation\<close>

lemma asset_switch_required:
  "asset_switch (Str t) n = (case required_count t of None \<Rightarrow> False | Some k \<Rightarrow> k \<le> n)"
  by (simp add: asset_switch_def required_count_def)

lemma includes_empty: "includes_str s []"
  by (simp add: includes_str_def)

lemma listFiles_all:
  "client (children_url rootDir path) = Inr response \<Longrightarrow>
   listFilesFromOneDrive client rootDir path [] =
     Inr (map item_name (filter has_file (resp_value response)))"
  by (simp add: listFilesFromOneDrive_def includes_empty)

text \<open>
  C1. When the listing of the folder succeeds, \<open>checkAssetsInOneDrive\<close> returns true
  exactly when the number of files listed reaches the threshold of the case type (3 for
  image and hybrid, 2 for audio, video and text), and returns false, without raising, for
  a string outside these five and for a value that is not a string.
\<close>

theorem checkAssets_threshold:
  assumes "client (children_url rootDir folderPath) = Inr response"
  shows "checkAssetsInOneDrive client rootDir folderPath (Str t) =
           Inr (case required_count t of
                  None \<Rightarrow> False
                | Some k \<Rightarrow> k \<le> length (filter has_file (resp_value response)))
         \<and> checkAssetsInOneDrive client rootDir folderPath (Inherited key) = Inr False"
  using listFiles_all [of client rootDir folderPath response] assms
  by (simp add: checkAssetsInOneDrive_def asset_switch_required)
    (simp add: asset_switch_def)

theorem checkAssets_threshold_witness:
  "checkAssetsInOneDrive three_files_client ''dev'' ''/gallery/cases/image-1'' (Str ''image'')
     = Inr True
   \<and> checkAssetsInOneDrive three_files_client ''dev'' ''/gallery/cases/image-1'' (Str ''pdf'')
     = Inr False
   \<and> checkAssetsInOneDrive three_files_client ''dev'' ''/gallery/cases/image-1''
       (Inherited ''constructor'') = Inr False"
  using checkAssets_threshold [of three_files_client "''dev''" "''/gallery/cases/image-1''"
      "\<lparr>resp_value = [file_item ''a.jpg'', folder_item ''old'', file_item ''b.jpg'',
                        file_item ''c.jpg''], next_link = None\<rparr>" "''image''" "''constructor''"]
    checkAssets_threshold [of three_files_client "''dev''" "''/gallery/cases/image-1''"
      "\<lparr>resp_value = [file_item ''a.jpg'', folder_item ''old'', file_item ''b.jpg'',
                        file_item ''c.jpg''], next_link = None\<rparr>" "''pdf''" "''constructor''"]
  by (simp add: three_files_client_def required_count_def file_item_def folder_item_def)

lemma promise_all_isl: "isl (promise_all ps) \<longleftrightarrow> (\<exists>p \<in> set ps. isl p)"
proof (induction ps)
  case Nil
  show ?case by simp
next
  case (Cons p ps)
  then show ?case by (cases p) (auto split: sum.splits)
qed

lemma promise_all_Inr:
  "(\<forall>p \<in> set ps. \<not> isl p) \<Longrightarrow> promise_all ps = Inr (map projr ps)"
proof (induction ps)
  case Nil
  show ?case by simp
next
  case (Cons p ps)
  then show ?case by (cases p) auto
qed

lemma checkAssets_isl:
  "isl (checkAssetsInOneDrive client rootDir folderPath caseType)
     \<longleftrightarrow> isl (client (children_url rootDir folderPath))"
  by (simp add: checkAssetsInOneDrive_def listFilesFromOneDrive_def split: sum.splits)

text \<open>
  C4 as stated fails: with the folder of \<open>audio-a\<close> missing, the batch
  \<open>[audio-a, audio-b]\<close> is rejected with the listing error, although \<open>audio-b\<close> alone
  validates to true; no array with false at index 0 is returned.
\<close>

theorem validateCases_aborts_counterexample:
  "checkAssetsInOneDrive missing_folder_client ''dev'' ''/gallery/cases/audio-b'' (Str ''audio'')
     = Inr True
   \<and> validateCasesInOneDrive missing_folder_client ''dev'' [''audio-a'', ''audio-b'']
     = Inl (ApiError ''itemNotFound'')
   \<and> validateCasesInOneDrive missing_folder_client ''dev'' [''audio-a'', ''audio-b'']
     \<noteq> Inr [False, True]"
  by (simp add: validateCasesInOneDrive_def checkAssetsInOneDrive_def
      listFilesFromOneDrive_def missing_folder_client_def children_url_def
      includes_empty file_item_def asset_switch_def)

text \<open>
  C4 amended. \<open>validateCasesInOneDrive\<close> has no handler for a failed listing: if the
  listing call of any case fails, the whole call fails with an error and no flag is
  returned for any case; if every listing succeeds, it returns one flag per case, in
  input order, the flag of a case being the threshold test on its own listing.
\<close>

theorem validateCases_all_or_nothing:
  "((\<exists>caseName \<in> set cases.
        isl (client (children_url rootDir (''/gallery/cases/'' @ caseName))))
      \<longrightarrow> isl (validateCasesInOneDrive client rootDir cases))
   \<and> ((\<forall>caseName \<in> set cases.
        \<not> isl (client (children_url rootDir (''/gallery/cases/'' @ caseName))))
      \<longrightarrow> validateCasesInOneDrive client rootDir cases =
            Inr (map (\<lambda>caseName.
                   asset_switch (lookup_type (case_prefix caseName))
                     (length (filter has_file (resp_value (projr
                        (client (children_url rootDir (''/gallery/cases/'' @ caseName))))))))
                 cases))"
proof (intro conjI impI)
  assume "\<exists>caseName \<in> set cases.
            isl (client (children_url rootDir (''/gallery/cases/'' @ caseName)))"
  then show "isl (validateCasesInOneDrive client rootDir cases)"
    by (auto simp: validateCasesInOneDrive_def promise_all_isl checkAssets_isl)
next
  assume ok: "\<forall>caseName \<in> set cases.
            \<not> isl (client (children_url rootDir (''/gallery/cases/'' @ caseName)))"
  have one: "projr (checkAssetsInOneDrive client rootDir (''/gallery/cases/'' @ c)
                 (lookup_type (case_prefix c)))
             = asset_switch (lookup_type (case_prefix c))
                 (length (filter has_file (resp_value (projr
                    (client (children_url rootDir (''/gallery/cases/'' @ c)))))))"
    if "c \<in> set cases" for c
  proof -
    from ok that obtain response
      where r: "client (children_url rootDir (''/gallery/cases/'' @ c)) = Inr response"
      by (cases "client (children_url rootDir (''/gallery/cases/'' @ c))") auto
    show ?thesis
      using listFiles_all [of client rootDir "''/gallery/cases/'' @ c" response] r
      by (simp add: checkAssetsInOneDrive_def)
  qed
  have "validateCasesInOneDrive client rootDir cases =
          Inr (map projr (map (\<lambda>caseName.
               checkAssetsInOneDrive client rootDir (''/gallery/cases/'' @ caseName)
                 (lookup_type (case_prefix caseName))) cases))"
    unfolding validateCasesInOneDrive_def
    by (rule promise_all_Inr) (use ok in \<open>auto simp: checkAssets_isl\<close>)
  then show "validateCasesInOneDrive client rootDir cases =
            Inr (map (\<lambda>caseName.
                   asset_switch (lookup_type (case_prefix caseName))
                     (length (filter has_file (resp_value (projr
                        (client (children_url rootDir (''/gallery/cases/'' @ caseName))))))))
                 cases)"
    using one by (simp add: comp_def cong: map_cong)
qed

theorem validateCases_all_or_nothing_witness:
  "isl (validateCasesInOneDrive missing_folder_client ''dev'' [''audio-a'', ''audio-b''])
   \<and> validateCasesInOneDrive three_files_client ''dev'' [''audio-a'', ''Image-b'']
       = Inr [True, True]"
  using validateCases_all_or_nothing [of "[''audio-a'', ''audio-b'']" missing_folder_client "''dev''"]
    validateCases_all_or_nothing [of "[''audio-a'', ''Image-b'']" three_files_client "''dev''"]
  by (simp add: missing_folder_client_def three_files_client_def children_url_def
      asset_switch_def lookup_type_def case_prefix_def toLowerCase_def lower_char_def
      object_prototype_keys_def file_item_def folder_item_def)

section \<open>The size table\<close>

lemma map_of_assign: "map_of (assign m k v) = (map_of m)(k \<mapsto> v)"
  by (induction m) (auto simp: fun_eq_iff)

lemma size_map_reduce_lookup:
  "size_map_reduce m fs = Inr m' \<Longrightarrow> distinct fs \<Longrightarrow> f \<in> set fs \<Longrightarrow>
   \<exists>key. size_key f = Inr key \<and> map_of m' f = Some (size_label key)"
proof (induction fs arbitrary: m)
  case Nil
  then show ?case by simp
next
  case (Cons g fs)
  from Cons.prems(1) obtain k where k: "size_key g = Inr k"
    and rest: "size_map_reduce (assign m g (size_label k)) fs = Inr m'"
    by (auto split: sum.splits)
  show ?case
  proof (cases "f = g")
    case False
    with Cons.prems Cons.IH [OF rest] show ?thesis by simp
  next
    case True
    have keep: "size_map_reduce m0 fs = Inr m' \<Longrightarrow> g \<notin> set fs \<Longrightarrow>
                map_of m' g = map_of m0 g" for m0
      by (induction fs arbitrary: m0) (auto simp: map_of_assign split: sum.splits)
    from keep [OF rest] Cons.prems(2) have "map_of m' g = Some (size_label k)"
      by (simp add: map_of_assign)
    with True k show ?thesis by simp
  qed
qed

lemma SIZE_MAP_value:
  "SIZE_MAP = Inr (map (\<lambda>fileName. (fileName, ''unknown'')) ALL_FILES)"
  by (simp add: SIZE_MAP_def ALL_FILES_def size_key_def size_label_def SIZE_LABEL_MAP_def)

lemma distinct_ALL_FILES: "distinct ALL_FILES"
  by (simp add: ALL_FILES_def)

text \<open>
  C9. \<open>SIZE_MAP\<close> is built without error; it gives every file name of the manifest the
  label of the first character of the name's second hyphen-separated segment, with
  \<open>unknown\<close> for a character outside the a/b/c table; every entry of the shipped table is
  \<open>unknown\<close>, although every manifest name carries the letter a or b between its last
  hyphen and its extension.
\<close>

theorem SIZE_MAP_all_unknown:
  "\<exists>m. SIZE_MAP = Inr m
     \<and> map fst m = ALL_FILES
     \<and> (\<forall>fileName \<in> set ALL_FILES.
           map_of m fileName
             = Some (size_label (take 1 (split_on CHR ''-'' fileName ! 1)))
           \<and> map_of m fileName = Some ''unknown''
           \<and> letter_before_extension fileName \<in> {Some CHR ''a'', Some CHR ''b''})"
proof -
  let ?m = "map (\<lambda>fileName. (fileName, ''unknown'')) ALL_FILES"
  have m: "SIZE_MAP = Inr ?m" by (rule SIZE_MAP_value)
  have keys: "map fst ?m = ALL_FILES" by (simp add: comp_def)
  have each: "map_of ?m f = Some (size_label (take 1 (split_on CHR ''-'' f ! 1)))
      \<and> map_of ?m f = Some ''unknown''
      \<and> letter_before_extension f \<in> {Some CHR ''a'', Some CHR ''b''}"
    if "f \<in> set ALL_FILES" for f
  proof -
    from size_map_reduce_lookup [OF m [unfolded SIZE_MAP_def] distinct_ALL_FILES that]
    obtain key where key: "size_key f = Inr key" and at: "map_of ?m f = Some (size_label key)"
      by blast
    from key have "key = take 1 (split_on CHR ''-'' f ! 1)"
      by (auto simp: size_key_def split: list.splits)
    moreover from that have "map_of ?m f = Some ''unknown''"
      by (auto simp: map_of_map_restrict)
    moreover from that have "letter_before_extension f \<in> {Some CHR ''a'', Some CHR ''b''}"
      by (auto simp: ALL_FILES_def letter_before_extension_def)
    ultimately show ?thesis using at by simp
  qed
  from m keys each show ?thesis by blast
qed

theorem SIZE_MAP_all_unknown_witness:
  "SIZE_MAP = Inr (map (\<lambda>fileName. (fileName, ''unknown'')) ALL_FILES)
   \<and> ''video-test1-a.mp4'' \<in> set ALL_FILES
   \<and> split_on CHR ''-'' ''video-test1-a.mp4'' ! 1 = ''test1''
   \<and> size_label ''t'' = ''unknown''
   \<and> letter_before_extension ''video-test1-a.mp4'' = Some CHR ''a''"
  using SIZE_MAP_all_unknown
  by (simp add: SIZE_MAP_value ALL_FILES_def size_label_def SIZE_LABEL_MAP_def
      letter_before_extension_def)

section \<open>The timing loop\<close>

lemma timing_loop_timed:
  "1 \<le> i \<Longrightarrow> i \<le> 7 \<Longrightarrow>
   timing_loop b url i (n + i) t =
     (n + 7,
      t\<lparr>sumFetch := sumFetch t
            + sum_list (map (\<lambda>j. elapsed b (n + j))
                         (filter (\<lambda>j. fetch b (n + j) url \<noteq> None) [i..<7])),
        countN := countN t + length (filter (\<lambda>j. fetch b (n + j) url \<noteq> None) [i..<7])\<rparr>)"
proof (induction "7 - i" arbitrary: i t)
  case 0
  then have "i = 7" by simp
  then show ?case by (simp add: timing_loop.simps ITER_def)
next
  case (Suc k)
  then have lt: "i < 7" and k: "k = 7 - Suc i" by simp_all
  have IH: "timing_loop b url (Suc i) (Suc (n + i)) t' =
     (n + 7,
      t'\<lparr>sumFetch := sumFetch t'
            + sum_list (map (\<lambda>j. elapsed b (n + j))
                         (filter (\<lambda>j. fetch b (n + j) url \<noteq> None) [Suc i..<7])),
        countN := countN t'
            + length (filter (\<lambda>j. fetch b (n + j) url \<noteq> None) [Suc i..<7])\<rparr>)" for t'
    using Suc.hyps(1) [OF k, of t'] lt by simp
  have unfold: "[i..<7] = i # [Suc i..<7]"
    using lt by (simp add: upt_conv_Cons)
  show ?case
    using lt Suc.prems(1)
    by (subst timing_loop.simps)
      (cases "fetch b (n + i) url"; simp add: ITER_def unfold IH)
qed

lemma timing_loop_from_0:
  "timing_loop b url 0 n timing_start =
     (n + 7,
      \<lparr>sumFetch = sum_list (timed_cycles b url n),
       countN = length (timed_cycles b url n),
       headerSize = (case fetch b n url of None \<Rightarrow> 0
                     | Some resp \<Rightarrow> length (headers_text (headers resp)))\<rparr>)"
  using timing_loop_timed [of 1 b url n]
  by (subst timing_loop.simps)
    (cases "fetch b n url"; simp add: ITER_def timed_cycles_def timing_start_def)

lemma length_join_with:
  "length (join_with sep xs) = sum_list (map length xs) + length sep * (length xs - 1)"
  by (induction sep xs rule: join_with.induct) simp_all

lemma headers_text_bytes: "length (headers_text hs) = header_bytes hs"
proof -
  have "map length (map (\<lambda>(k, v). k @ '': '' @ v) hs)
      = map (\<lambda>(k, v). length k + 2 + length v) hs"
    by (induction hs) auto
  then show ?thesis
    by (simp add: headers_text_def header_bytes_def length_join_with del: map_map)
qed

lemma avgFetch_mean:
  "avgFetch \<lparr>sumFetch = sum_list xs, countN = length xs, headerSize = k\<rparr> = mean xs"
  by (simp add: avgFetch_def mean_def)

lemma timed_cycles_elapsed_0:
  "timed_cycles (b\<lparr>elapsed := (elapsed b)(n := x)\<rparr>) url n = timed_cycles b url n"
  by (simp add: timed_cycles_def)

lemma measure_url_fetchTimeMs:
  "map_of (fst (measure_url h b routeKey loc url n)) ''fetchTimeMs''
     = Some (S (toFixed2 b (mean (timed_cycles b url n))))"
  by (simp add: measure_url_def timing_loop_from_0 avgFetch_mean Let_def)

lemma measure_url_headerSizeBytes:
  "map_of (fst (measure_url h b routeKey loc url n)) ''headerSizeBytes''
     = Some (N (case fetch b n url of None \<Rightarrow> 0
                | Some resp \<Rightarrow> length (headers_text (headers resp))))"
  by (simp add: measure_url_def timing_loop_from_0 Let_def)

text \<open>
  C2. For every URL the loop issues exactly 7 requests (the request counter advances by
  7). Cycle 0 only sets the header size, to the byte length of the headers of its
  response written as \<open>key: value\<close> lines joined by CRLF (which is also the
  \<open>headerSizeBytes\<close> of the record); its elapsed time has no influence on the result of
  the loop. The average is the arithmetic mean of the elapsed times of those of the
  cycles 1 to 6 whose request succeeded, \<open>fetchTimeMs\<close> is that mean printed with two
  decimals, and when all six timed cycles fail the average is 0.
\<close>

theorem fetchTime_is_mean_of_timed_cycles:
  "fst (timing_loop b url 0 n timing_start) = n + 7
   \<and> headerSize (snd (timing_loop b url 0 n timing_start))
       = (case fetch b n url of None \<Rightarrow> 0 | Some resp \<Rightarrow> header_bytes (headers resp))
   \<and> map_of (fst (measure_url h b routeKey loc url n)) ''headerSizeBytes''
       = Some (N (case fetch b n url of None \<Rightarrow> 0 | Some resp \<Rightarrow> header_bytes (headers resp)))
   \<and> timing_loop (b\<lparr>elapsed := (elapsed b)(n := x)\<rparr>) url 0 n timing_start
       = timing_loop b url 0 n timing_start
   \<and> avgFetch (snd (timing_loop b url 0 n timing_start)) = mean (timed_cycles b url n)
   \<and> map_of (fst (measure_url h b routeKey loc url n)) ''fetchTimeMs''
       = Some (S (toFixed2 b (mean (timed_cycles b url n))))
   \<and> ((\<forall>i \<in> {1..6}. fetch b (n + i) url = None)
        \<longrightarrow> avgFetch (snd (timing_loop b url 0 n timing_start)) = 0)"
proof -
  have "timed_cycles b url n = []" if "\<forall>i \<in> {1..6}. fetch b (n + i) url = None"
  proof -
    have "filter (\<lambda>i. fetch b (n + i) url \<noteq> None) [1..<7] = []"
      using that by (auto simp: filter_empty_conv)
    then show ?thesis by (simp add: timed_cycles_def)
  qed
  then have "(\<forall>i \<in> {1..6}. fetch b (n + i) url = None)
        \<longrightarrow> avgFetch (snd (timing_loop b url 0 n timing_start)) = 0"
    by (simp add: timing_loop_from_0 avgFetch_def)
  then show ?thesis
    by (simp add: timing_loop_from_0 avgFetch_mean measure_url_fetchTimeMs
        measure_url_headerSizeBytes headers_text_bytes timed_cycles_elapsed_0
        split: option.splits)
qed

theorem fetchTime_is_mean_of_timed_cycles_witness:
  "fst (timing_loop flaky_browser ''u'' 0 1 timing_start) = 8
   \<and> fetch flaky_browser 1 ''u''
       = Some \<lparr>headers = [(''content-type'', ''video/mp4'')], blob_size = Some 2048\<rparr>
   \<and> length (''content-type: video/mp4'') = 23
   \<and> headerSize (snd (timing_loop flaky_browser ''u'' 0 1 timing_start)) = 23
   \<and> map_of (fst (measure_url sample_hook flaky_browser ''/survey/case1''
                (''Norway'', ''Europe'') ''u'' 1)) ''headerSizeBytes'' = Some (N 23)
   \<and> timed_cycles flaky_browser ''u'' 1 = [2, 4, 5, 7]
   \<and> avgFetch (snd (timing_loop flaky_browser ''u'' 0 1 timing_start)) = 9 / 2
   \<and> fetch offline_browser 1 ''u'' = None \<and> fetch offline_browser 6 ''u'' = None
   \<and> avgFetch (snd (timing_loop offline_browser ''u'' 0 0 timing_start)) = 0"
proof -
  have cycles: "timed_cycles flaky_browser ''u'' 1 = [2, 4, 5, 7]"
    by (simp add: timed_cycles_def flaky_browser_def upt_conv_Cons)
  have off: "\<forall>i \<in> {1..6}. fetch offline_browser (0 + i) ''u'' = None"
    by (simp add: offline_browser_def)
  note flaky = fetchTime_is_mean_of_timed_cycles [where b = flaky_browser and url = "''u''"
      and n = 1 and h = sample_hook and routeKey = "''/survey/case1''"
      and loc = "(''Norway'', ''Europe'')"]
  note offline = fetchTime_is_mean_of_timed_cycles [of offline_browser "''u''" 0]
  have first: "fetch flaky_browser 1 ''u''
       = Some \<lparr>headers = [(''content-type'', ''video/mp4'')], blob_size = Some 2048\<rparr>"
    by (simp add: flaky_browser_def)
  have bytes: "header_bytes [(''content-type'', ''video/mp4'')] = 23"
    by (simp add: header_bytes_def)
  from flaky first bytes
  have "headerSize (snd (timing_loop flaky_browser ''u'' 0 1 timing_start)) = 23"
    and "map_of (fst (measure_url sample_hook flaky_browser ''/survey/case1''
                (''Norway'', ''Europe'') ''u'' 1)) ''headerSizeBytes'' = Some (N 23)"
    by simp_all
  moreover from flaky have "fst (timing_loop flaky_browser ''u'' 0 1 timing_start) = 8"
    by simp
  moreover from flaky cycles
  have "avgFetch (snd (timing_loop flaky_browser ''u'' 0 1 timing_start)) = 9 / 2"
    by (simp add: mean_def)
  moreover from offline off
  have "avgFetch (snd (timing_loop offline_browser ''u'' 0 0 timing_start)) = 0"
    by blast
  moreover have "fetch offline_browser 1 ''u'' = None \<and> fetch offline_browser 6 ''u'' = None"
    by (simp add: offline_browser_def)
  ultimately show ?thesis using cycles first by simp
qed

text \<open>
  C10. When the request of cycle 0 fails, \<open>headerSizeBytes\<close> of the record is 0 whatever
  the later responses carry, while the loop still issues its 7 requests and
  \<open>fetchTimeMs\<close> is the mean over the successful ones of cycles 1 to 6, as usual.
\<close>

theorem header_probe_failure_leaves_zero:
  assumes "fetch b n url = None"
  shows "map_of (fst (measure_url h b routeKey loc url n)) ''headerSizeBytes'' = Some (N 0)
         \<and> fst (timing_loop b url 0 n timing_start) = n + 7
         \<and> headerSize (snd (timing_loop b url 0 n timing_start)) = 0
         \<and> avgFetch (snd (timing_loop b url 0 n timing_start)) = mean (timed_cycles b url n)
         \<and> map_of (fst (measure_url h b routeKey loc url n)) ''fetchTimeMs''
             = Some (S (toFixed2 b (mean (timed_cycles b url n))))"
  using assms
  by (simp add: measure_url_headerSizeBytes measure_url_fetchTimeMs timing_loop_from_0
      avgFetch_mean)

theorem header_probe_failure_leaves_zero_witness:
  "fetch flaky_browser 0 ''u'' = None
   \<and> map_of (fst (measure_url sample_hook flaky_browser ''/survey/case1''
                (''Norway'', ''Europe'') ''u'' 0)) ''headerSizeBytes'' = Some (N 0)
   \<and> timed_cycles flaky_browser ''u'' 0 = [1, 2, 4, 5]
   \<and> avgFetch (snd (timing_loop flaky_browser ''u'' 0 0 timing_start)) = 3"
proof -
  have none: "fetch flaky_browser 0 ''u'' = None"
    by (simp add: flaky_browser_def)
  have "timed_cycles flaky_browser ''u'' 0 = [1, 2, 4, 5]"
    by (simp add: timed_cycles_def flaky_browser_def upt_conv_Cons)
  then show ?thesis
    using none header_probe_failure_leaves_zero [OF none, of sample_hook "''/survey/case1''"
        "(''Norway'', ''Europe'')"]
    by (simp add: mean_def)
qed

section \<open>The session invariant\<close>

lemma measure_url_keys: "map fst (fst (measure_url h b rk loc url n)) = metric_keys"
  by (simp add: measure_url_def metric_keys_def Let_def split: prod.splits)

lemma measure_url_fileURL: "fileURL (fst (measure_url h b rk loc url n)) = Some (S url)"
  by (simp add: measure_url_def fileURL_def Let_def split: prod.splits)

lemma mset_concat_update:
  "k < length ts \<Longrightarrow>
   mset (concat (map f (ts[k := t']))) + mset (f (ts ! k)) = mset (concat (map f ts)) + mset (f t')"
proof (induction ts arbitrary: k)
  case Nil
  then show ?case by simp
next
  case (Cons t ts)
  then show ?case by (cases k) (simp_all add: ac_simps)
qed

lemma mset_concat_remove:
  "k < length ts \<Longrightarrow>
   mset (concat (map f (take k ts @ drop (Suc k) ts))) + mset (f (ts ! k))
     = mset (concat (map f ts))"
proof (induction ts arbitrary: k)
  case Nil
  then show ?case by simp
next
  case (Cons t ts)
  then show ?case by (cases k) (simp_all add: ac_simps)
qed

lemma next_claim_fresh: "next_claim urls seen = (Some url, rest) \<Longrightarrow> url \<notin> seen"
  by (induction urls) (auto split: if_splits)

lemma next_claim_skips:
  "next_claim urls seen = (found, rest) \<Longrightarrow>
   \<exists>skipped. set skipped \<subseteq> seen
     \<and> urls = skipped @ (case found of None \<Rightarrow> [] | Some url \<Rightarrow> [url]) @ rest"
proof (induction urls)
  case Nil
  then show ?case by simp
next
  case (Cons u urls)
  show ?case
  proof (cases "u \<in> seen")
    case True
    with Cons obtain skipped where "set skipped \<subseteq> seen"
      "urls = skipped @ (case found of None \<Rightarrow> [] | Some url \<Rightarrow> [url]) @ rest"
      by auto
    with True show ?thesis by (intro exI [of _ "u # skipped"]) simp
  next
    case False
    with Cons.prems show ?thesis by (intro exI [of _ "[]"]) auto
  qed
qed

lemma complete_measurement_pushed:
  assumes "complete_measurement h b t n = (pushed, n')"
  shows "\<exists>extra. pushed = newMetrics t @ extra
           \<and> map fileURL extra = (case in_flight t of None \<Rightarrow> [] | Some url \<Rightarrow> [Some (S url)])
           \<and> (\<forall>m \<in> set extra. map fst m = metric_keys)"
proof (cases "in_flight t")
  case None
  with assms show ?thesis by (simp add: complete_measurement_def)
next
  case (Some url)
  obtain m n1 where m: "measure_url h b (task_route t) (task_location t) url n = (m, n1)"
    by (cases "measure_url h b (task_route t) (task_location t) url n")
  with assms Some have "pushed = newMetrics t @ [m]"
    by (simp add: complete_measurement_def)
  moreover have "map fst m = metric_keys" "fileURL m = Some (S url)"
    using measure_url_keys [of h b "task_route t" "task_location t" url n]
      measure_url_fileURL [of h b "task_route t" "task_location t" url n] m
    by simp_all
  ultimately show ?thesis using Some by simp
qed

lemma claimed_all_records:
  "mset (claimed s)
     = mset (map fileURL (all_records s))
       + mset (concat (map (\<lambda>t. case in_flight t of None \<Rightarrow> [] | Some url \<Rightarrow> [Some (S url)])
                         (tasks s)))"
proof -
  have "mset (concat (map task_urls ts))
      = mset (map fileURL (concat (map newMetrics ts)))
        + mset (concat (map (\<lambda>t. case in_flight t of None \<Rightarrow> [] | Some url \<Rightarrow> [Some (S url)]) ts))"
    for ts
    by (induction ts) (simp_all add: task_urls_def)
  then show ?thesis by (simp add: claimed_def all_records_def)
qed

lemma distinct_records:
  assumes "distinct (claimed s)"
  shows "distinct (map fileURL (all_records s))"
proof -
  let ?fl = "concat (map (\<lambda>t. case in_flight t of None \<Rightarrow> [] | Some url \<Rightarrow> [Some (S url)])
                         (tasks s))"
  have "mset (claimed s) = mset (map fileURL (all_records s) @ ?fl)"
    by (simp add: claimed_all_records)
  from mset_eq_imp_distinct_iff [OF this] assms
  have "distinct (map fileURL (all_records s) @ ?fl)" by simp
  then show ?thesis by simp
qed

lemma records_claimed: "set (map fileURL (all_records s)) \<subseteq> set (claimed s)"
proof -
  have "set_mset (mset (map fileURL (all_records s))) \<subseteq> set_mset (mset (claimed s))"
    unfolding claimed_all_records by simp
  then show ?thesis by simp
qed

lemma inv_step:
  assumes inv: "session_inv h b s"
    and claimed: "mset (claimed s') = mset (claimed s) + mset (map (\<lambda>u. Some (S u)) new_urls)"
    and fresh: "distinct new_urls" "set new_urls \<inter> recorded s = {}"
    and seen: "recorded s' = recorded s \<union> set new_urls"
    and records: "mset (all_records s') = mset (all_records s) + mset extra"
    and keys: "\<forall>m \<in> set extra. map fst m = metric_keys"
    and same: "hasDownloaded s' = hasDownloaded s" "downloads s' = downloads s"
    and log: "prefix (allMetrics s) (allMetrics s')"
  shows "session_inv h b s'"
proof -
  have d_new: "distinct (map (\<lambda>u. Some (S u)) new_urls)"
    using fresh(1) by (simp add: distinct_map inj_on_def)
  have "set (claimed s) \<inter> set (map (\<lambda>u. Some (S u)) new_urls) = {}"
    using inv fresh(2) by (fastforce simp: session_inv_def)
  with inv d_new have d: "distinct (claimed s @ map (\<lambda>u. Some (S u)) new_urls)"
    by (simp add: session_inv_def)
  have "mset (claimed s') = mset (claimed s @ map (\<lambda>u. Some (S u)) new_urls)"
    using claimed by simp
  from mset_eq_imp_distinct_iff [OF this] d have 1: "distinct (claimed s')"
    by simp
  have "set (claimed s') = set (claimed s) \<union> set (map (\<lambda>u. Some (S u)) new_urls)"
    using arg_cong [OF claimed, of set_mset] by simp
  then have 2: "\<forall>c \<in> set (claimed s'). \<exists>u \<in> recorded s'. c = Some (S u)"
    using inv seen by (fastforce simp: session_inv_def)
  have "set (all_records s') = set (all_records s) \<union> set extra"
    using arg_cong [OF records, of set_mset] by simp
  then have 3: "\<forall>m \<in> set (all_records s'). map fst m = metric_keys"
    using inv keys by (auto simp: session_inv_def)
  have 4: "if hasDownloaded s'
        then \<exists>ms. ms \<noteq> [] \<and> prefix ms (allMetrics s')
               \<and> downloads s' = [(report_name h, csv_document b ms)]
        else downloads s' = []"
  proof (cases "hasDownloaded s")
    case True
    with inv obtain ms where "ms \<noteq> []" "prefix ms (allMetrics s)"
      "downloads s = [(report_name h, csv_document b ms)]"
      by (auto simp: session_inv_def)
    with log have "ms \<noteq> [] \<and> prefix ms (allMetrics s')
               \<and> downloads s' = [(report_name h, csv_document b ms)]"
      by (auto simp: same intro: prefix_order.trans)
    with True same show ?thesis by auto
  next
    case False
    with inv same show ?thesis by (simp add: session_inv_def)
  qed
  from 1 2 3 4 show ?thesis unfolding session_inv_def by blast
qed

lemma export_inv: "session_inv h b s \<Longrightarrow> session_inv h b (export_effect h b s)"
  by (auto simp: session_inv_def export_effect_def all_records_def claimed_def)

lemma capture_start_fresh:
  "capture_start h rk loc = Some t \<Longrightarrow> in_flight t = None \<and> newMetrics t = []"
  by (auto simp: capture_start_def Let_def split: option.splits if_splits sum.splits)

lemma capture_effect_inv:
  assumes "session_inv h b s"
  shows "session_inv h b (capture_effect h s)"
proof -
  have "session_inv h b (s\<lparr>tasks := tasks s @ [t]\<rparr>)"
    if "in_flight t = None" "newMetrics t = []" for t
    using assms that by (simp add: session_inv_def all_records_def claimed_def task_urls_def)
  with assms show ?thesis
    by (auto simp: capture_effect_def dest: capture_start_fresh split: option.splits)
qed

lemma advance_cases:
  assumes "k < length (tasks s)"
    and "complete_measurement h b (tasks s ! k) (requests s) = (pushed, n')"
    and "next_claim (pending (tasks s ! k)) (recorded s) = (found, rest)"
  shows "advance h b k s =
     (case found of
        Some url \<Rightarrow>
          s\<lparr>recorded := insert url (recorded s), requests := n',
            tasks := (tasks s)[k := (tasks s ! k)
               \<lparr>pending := rest, in_flight := Some url, newMetrics := pushed\<rparr>]\<rparr>
      | None \<Rightarrow>
          export_effect h b
            (s\<lparr>requests := n', allMetrics := allMetrics s @ pushed,
               tasks := take k (tasks s) @ drop (Suc k) (tasks s)\<rparr>))"
  using assms by (simp add: advance_def Let_def split: option.splits)

lemma advance_inv:
  assumes inv: "session_inv h b s"
  shows "session_inv h b (advance h b k s)"
proof (cases "k < length (tasks s)")
  case False
  with assms show ?thesis by (simp add: advance_def)
next
  case k: True
  let ?t = "tasks s ! k"
  obtain pushed n' where cm: "complete_measurement h b ?t (requests s) = (pushed, n')"
    by (cases "complete_measurement h b ?t (requests s)")
  obtain found rest where nc: "next_claim (pending ?t) (recorded s) = (found, rest)"
    by (cases "next_claim (pending ?t) (recorded s)")
  from complete_measurement_pushed [OF cm] obtain extra where
    pushed: "pushed = newMetrics ?t @ extra" and
    urls: "map fileURL extra = (case in_flight ?t of None \<Rightarrow> [] | Some url \<Rightarrow> [Some (S url)])" and
    keys: "\<forall>m \<in> set extra. map fst m = metric_keys"
    by blast
  have urls_pushed: "map fileURL pushed = task_urls ?t"
    by (simp add: pushed urls task_urls_def)
  show ?thesis
  proof (cases found)
    case None
    let ?s0 = "s\<lparr>requests := n', allMetrics := allMetrics s @ pushed,
               tasks := take k (tasks s) @ drop (Suc k) (tasks s)\<rparr>"
    have c: "mset (claimed ?s0) = mset (claimed s) + mset (map (\<lambda>u. Some (S u)) [])"
      using mset_concat_remove [OF k, of task_urls]
      by (simp add: claimed_def urls_pushed ac_simps)
    have r: "mset (all_records ?s0) = mset (all_records s) + mset extra"
      using mset_concat_remove [OF k, of newMetrics]
      by (simp add: all_records_def pushed ac_simps)
    have "session_inv h b ?s0"
    proof (rule inv_step [OF inv c _ _ _ r keys])
      show "distinct ([] :: string list)" by simp
      show "set [] \<inter> recorded s = {}" by simp
      show "recorded ?s0 = recorded s \<union> set []" by simp
      show "hasDownloaded ?s0 = hasDownloaded s" by simp
      show "downloads ?s0 = downloads s" by simp
      show "prefix (allMetrics s) (allMetrics ?s0)" by simp
    qed
    then show ?thesis
      by (simp add: advance_cases [OF k cm nc] None export_inv)
  next
    case (Some url)
    let ?t' = "?t\<lparr>pending := rest, in_flight := Some url, newMetrics := pushed\<rparr>"
    let ?s' = "s\<lparr>recorded := insert url (recorded s), requests := n',
            tasks := (tasks s)[k := ?t']\<rparr>"
    have fresh: "url \<notin> recorded s"
      using nc Some by (auto dest: next_claim_fresh)
    have "mset (task_urls ?t') = mset (task_urls ?t) + {#Some (S url)#}"
      by (simp add: task_urls_def pushed urls)
    with mset_concat_update [OF k, of task_urls ?t']
    have "mset (concat (map task_urls ((tasks s)[k := ?t']))) + mset (task_urls ?t)
        = mset (concat (map task_urls (tasks s))) + mset (task_urls ?t) + {#Some (S url)#}"
      by (simp add: ac_simps)
    then have c: "mset (claimed ?s') = mset (claimed s) + mset (map (\<lambda>u. Some (S u)) [url])"
      by (simp add: claimed_def)
    have "mset (newMetrics ?t') = mset (newMetrics ?t) + mset extra"
      by (simp add: pushed)
    with mset_concat_update [OF k, of newMetrics ?t']
    have "mset (concat (map newMetrics ((tasks s)[k := ?t']))) + mset (newMetrics ?t)
        = mset (concat (map newMetrics (tasks s))) + mset (newMetrics ?t) + mset extra"
      by (simp add: ac_simps)
    then have r: "mset (all_records ?s') = mset (all_records s) + mset extra"
      by (simp add: all_records_def)
    have "session_inv h b ?s'"
    proof (rule inv_step [OF inv c _ _ _ r keys])
      show "distinct [url]" by simp
      show "set [url] \<inter> recorded s = {}" using fresh by simp
      show "recorded ?s' = recorded s \<union> set [url]" by simp
      show "hasDownloaded ?s' = hasDownloaded s" by simp
      show "downloads ?s' = downloads s" by simp
      show "prefix (allMetrics s) (allMetrics ?s')" by simp
    qed
    then show ?thesis
      by (simp add: advance_cases [OF k cm nc] Some)
  qed
qed

lemma route_inv: "session_inv h b s \<Longrightarrow> session_inv h b (s\<lparr>currentRoute := r\<rparr>)"
  and location_inv: "session_inv h b s \<Longrightarrow> session_inv h b (s\<lparr>location := l\<rparr>)"
  by (simp_all add: session_inv_def all_records_def claimed_def)

lemma step_inv: "session_inv h b s \<Longrightarrow> session_inv h b (step h b s e)"
  by (cases e) (simp_all add: capture_effect_inv export_inv route_inv location_inv advance_inv)

lemma mount_inv: "session_inv h b (mount h b route)"
  unfolding mount_def
  by (intro capture_effect_inv export_inv) (simp add: session_inv_def all_records_def claimed_def)

lemma foldl_step_inv:
  "session_inv h b s \<Longrightarrow> session_inv h b (foldl (step h b) s events)"
  by (induction events arbitrary: s) (simp_all add: step_inv)

lemma run_inv: "session_inv h b (run h b route events)"
  by (simp add: run_def foldl_step_inv mount_inv)

lemma filter_key_le_1: "distinct (map f xs) \<Longrightarrow> length (filter (\<lambda>x. f x = y) xs) \<le> 1"
proof (induction xs)
  case Nil
  then show ?case by simp
next
  case (Cons x xs)
  show ?case
  proof (cases "f x = y")
    case True
    with Cons.prems have "y \<notin> f ` set xs" by simp
    then have "filter (\<lambda>x. f x = y) xs = []"
      by (auto simp: filter_empty_conv)
    with True show ?thesis by simp
  next
    case False
    with Cons show ?thesis by simp
  qed
qed

lemma row_cells:
  "distinct (map fst m) \<Longrightarrow>
   map (\<lambda>k. case map_of m k of None \<Rightarrow> [] | Some c \<Rightarrow> cell_text b c) (map fst m)
     = map (\<lambda>(k, c). cell_text b c) m"
proof (induction m)
  case Nil
  then show ?case by simp
next
  case (Cons kv m)
  obtain k v where kv: "kv = (k, v)" by (cases kv)
  from Cons.prems kv have notin: "k \<notin> fst ` set m" by simp
  have "map (\<lambda>k'. case map_of (kv # m) k' of None \<Rightarrow> [] | Some c \<Rightarrow> cell_text b c) (map fst m)
      = map (\<lambda>k'. case map_of m k' of None \<Rightarrow> [] | Some c \<Rightarrow> cell_text b c) (map fst m)"
    using notin kv by (intro map_cong) auto
  with Cons kv show ?case by simp
qed

lemma distinct_metric_keys: "distinct metric_keys"
  by (simp add: metric_keys_def)

lemma csv_document_rows:
  assumes "ms \<noteq> []" and "\<forall>m \<in> set ms. map fst m = metric_keys"
  shows "csv_document b ms =
           join_with '','' metric_keys @ [CHR 0x0A]
           @ join_with [CHR 0x0A] (map (\<lambda>m. join_with '','' (map (\<lambda>(k, c). cell_text b c) m)) ms)"
proof -
  obtain m0 rest where ms: "ms = m0 # rest" using assms(1) by (cases ms) auto
  have "csv_row b metric_keys m = join_with '','' (map (\<lambda>(k, c). cell_text b c) m)"
    if "m \<in> set ms" for m
    using that assms(2) row_cells [of m b] distinct_metric_keys
    by (simp add: csv_row_def)
  then have rows: "map (csv_row b metric_keys) ms
      = map (\<lambda>m. join_with '','' (map (\<lambda>(k, c). cell_text b c) m)) ms"
    by (intro map_cong) simp_all
  have keys: "map fst m0 = metric_keys" using assms(2) ms by simp
  have "csv_document b ms =
          join_with '','' (map fst m0) @ [CHR 0x0A]
          @ join_with [CHR 0x0A] (map (csv_row b (map fst m0)) ms)"
    by (simp add: csv_document_def ms Let_def)
  then show ?thesis by (simp only: keys rows)
qed


lemma downloaded_step:
  assumes "hasDownloaded s"
  shows "hasDownloaded (step h b s e) \<and> downloads (step h b s e) = downloads s"
proof (cases e)
  case (Navigate r)
  with assms show ?thesis
    by (auto simp: export_effect_def capture_effect_def split: option.splits)
next
  case (GeoResolved loc)
  with assms show ?thesis
    by (auto simp: capture_effect_def split: option.splits)
next
  case (Advance k)
  show ?thesis
  proof (cases "k < length (tasks s)")
    case False
    with Advance assms show ?thesis by (simp add: advance_def)
  next
    case True
    obtain pushed n' where cm: "complete_measurement h b (tasks s ! k) (requests s) = (pushed, n')"
      by (cases "complete_measurement h b (tasks s ! k) (requests s)")
    obtain found rest where nc: "next_claim (pending (tasks s ! k)) (recorded s) = (found, rest)"
      by (cases "next_claim (pending (tasks s ! k)) (recorded s)")
    from assms show ?thesis
      by (cases found) (simp_all add: Advance advance_cases [OF True cm nc] export_effect_def)
  qed
qed

lemma downloaded_steps:
  "hasDownloaded s \<Longrightarrow>
   hasDownloaded (foldl (step h b) s events) \<and> downloads (foldl (step h b) s events) = downloads s"
proof (induction events arbitrary: s)
  case Nil
  then show ?case by simp
next
  case (Cons e events)
  from downloaded_step [OF Cons.prems, of h b e] Cons.IH [of "step h b s e"]
  show ?case by simp
qed

lemma export_writes_log:
  assumes "\<not> hasDownloaded s \<longrightarrow> downloads s = []"
  shows "downloads (export_effect h b s) = downloads s
         \<or> (downloads s = [] \<and> allMetrics (export_effect h b s) \<noteq> []
            \<and> downloads (export_effect h b s)
                = [(report_name h, csv_document b (allMetrics (export_effect h b s)))])"
  using assms by (simp add: export_effect_def)

lemma step_writes_log:
  assumes inv: "session_inv h b s"
  shows "downloads (step h b s e) = downloads s
         \<or> (downloads s = [] \<and> allMetrics (step h b s e) \<noteq> []
            \<and> downloads (step h b s e)
                = [(report_name h, csv_document b (allMetrics (step h b s e)))])"
proof -
  have empty: "\<not> hasDownloaded s \<longrightarrow> downloads s = []"
    using inv by (simp add: session_inv_def)
  show ?thesis
  proof (cases e)
    case (Navigate r)
    let ?s0 = "capture_effect h (s\<lparr>currentRoute := r\<rparr>)"
    have same: "hasDownloaded ?s0 = hasDownloaded s" "downloads ?s0 = downloads s"
      by (simp_all add: capture_effect_def split: option.splits)
    with empty have "\<not> hasDownloaded ?s0 \<longrightarrow> downloads ?s0 = []" by simp
    from export_writes_log [OF this, of h b] same Navigate show ?thesis by auto
  next
    case (GeoResolved loc)
    then show ?thesis by (simp add: capture_effect_def split: option.splits)
  next
    case (Advance k)
    show ?thesis
    proof (cases "k < length (tasks s)")
      case False
      with Advance show ?thesis by (simp add: advance_def)
    next
      case True
      obtain pushed n' where cm: "complete_measurement h b (tasks s ! k) (requests s) = (pushed, n')"
        by (cases "complete_measurement h b (tasks s ! k) (requests s)")
      obtain found rest where nc: "next_claim (pending (tasks s ! k)) (recorded s) = (found, rest)"
        by (cases "next_claim (pending (tasks s ! k)) (recorded s)")
      show ?thesis
      proof (cases found)
        case (Some url)
        then show ?thesis by (simp add: Advance advance_cases [OF True cm nc])
      next
        case None
        let ?s0 = "s\<lparr>requests := n', allMetrics := allMetrics s @ pushed,
               tasks := take k (tasks s) @ drop (Suc k) (tasks s)\<rparr>"
        from empty have "\<not> hasDownloaded ?s0 \<longrightarrow> downloads ?s0 = []" by simp
        from export_writes_log [OF this, of h b] show ?thesis
          by (simp add: Advance advance_cases [OF True cm nc] None)
      qed
    qed
  qed
qed

lemma run_snoc: "run h b route (events @ [e]) = step h b (run h b route events) e"
  by (simp add: run_def)

lemma reachable_keys:
  "m \<in> set (allMetrics (run h b route events)) \<Longrightarrow> map fst m = metric_keys"
  using run_inv [of h b route events] by (simp add: session_inv_def all_records_def)

lemma in_flight_claimed:
  "t \<in> set (tasks s) \<Longrightarrow> in_flight t = Some u \<Longrightarrow> Some (S u) \<in> set (flights s)"
  by (auto simp: flights_def intro!: bexI [of _ t])

lemma distinct_records_flights:
  assumes "distinct (claimed s)"
  shows "distinct (map fileURL (all_records s) @ flights s)"
proof -
  have "mset (claimed s) = mset (map fileURL (all_records s) @ flights s)"
    by (simp add: claimed_all_records flights_def)
  from mset_eq_imp_distinct_iff [OF this] assms show ?thesis by simp
qed


section \<open>Deduplication, export and the report\<close>

lemma three_visits_run:
  "run text_hook flaky_browser ''/survey/case5'' three_visits =
     \<lparr>currentRoute = ''/survey/end'', location = (''Unknown'', ''Unknown''),
      recorded = {''https://bucket.example/text-sample/text-sample-a.txt''},
      allMetrics =
        [[(''route'', S ''/survey/case5''), (''storageProvider'', S ''aws''),
          (''country'', S ''Unknown''), (''continent'', S ''Unknown''),
          (''fileURL'', S ''https://bucket.example/text-sample/text-sample-a.txt''),
          (''fileName'', S ''text-sample-a.txt''), (''fileType'', S ''TXT''),
          (''size'', S ''unknown''), (''fileSize'', S ''0.00 KB''),
          (''fetchTimeMs'', S ''0.00''), (''throughputKBps'', S ''0.00''),
          (''payloadKB'', S ''0.00''), (''headerSizeBytes'', N 0),
          (''memoryDelta'', S ''0.00 MB'')]],
      hasDownloaded = True,
      downloads =
        [(''aws_complete_metrics.csv'',
          ''route,storageProvider,country,continent,fileURL,fileName,fileType,size,fileSize,fetchTimeMs,throughputKBps,payloadKB,headerSizeBytes,memoryDelta'' @ [CHR 0x0A] @ ''/survey/case5,aws,Unknown,Unknown,https://bucket.example/text-sample/text-sample-a.txt,text-sample-a.txt,TXT,unknown,0.00 KB,0.00,0.00,0.00,0,0.00 MB'')],
      requests = 8, tasks = []\<rparr>"
  by code_simp

lemma reentry_in_flight:
  "run text_hook flaky_browser ''/survey/case5'' (take 2 reentry) =
     \<lparr>currentRoute = ''/survey/case5'', location = (''Norway'', ''Europe''),
      recorded = {''https://bucket.example/text-sample/text-sample-a.txt''},
      allMetrics = [], hasDownloaded = False, downloads = [], requests = 0,
      tasks =
        [\<lparr>task_route = ''/survey/case5'', task_location = (''Unknown'', ''Unknown''),
          pending = [],
          in_flight = Some ''https://bucket.example/text-sample/text-sample-a.txt'',
          newMetrics = []\<rparr>,
         \<lparr>task_route = ''/survey/case5'', task_location = (''Norway'', ''Europe''),
          pending = [''https://bucket.example/text-sample/text-sample-a.txt''],
          in_flight = None, newMetrics = []\<rparr>]\<rparr>"
  by code_simp

lemma reentry_run:
  "run text_hook flaky_browser ''/survey/case5'' reentry =
     \<lparr>currentRoute = ''/survey/case5'', location = (''Norway'', ''Europe''),
      recorded = {''https://bucket.example/text-sample/text-sample-a.txt''},
      allMetrics =
        [[(''route'', S ''/survey/case5''), (''storageProvider'', S ''aws''),
          (''country'', S ''Unknown''), (''continent'', S ''Unknown''),
          (''fileURL'', S ''https://bucket.example/text-sample/text-sample-a.txt''),
          (''fileName'', S ''text-sample-a.txt''), (''fileType'', S ''TXT''),
          (''size'', S ''unknown''), (''fileSize'', S ''0.00 KB''),
          (''fetchTimeMs'', S ''0.00''), (''throughputKBps'', S ''0.00''),
          (''payloadKB'', S ''0.00''), (''headerSizeBytes'', N 0),
          (''memoryDelta'', S ''0.00 MB'')]],
      hasDownloaded = False, downloads = [], requests = 8, tasks = []\<rparr>"
  by code_simp

lemma two_files_run:
  "run sample_hook flaky_browser ''/survey/case1'' two_files =
     \<lparr>currentRoute = ''/survey/end'', location = (''Unknown'', ''Unknown''),
      recorded = {''https://bucket.example/video-test1/video-test1-b.mp4'',
                  ''https://bucket.example/video-test1/video-test1-a.mp4''},
      allMetrics =
        [[(''route'', S ''/survey/case1''), (''storageProvider'', S ''aws''),
          (''country'', S ''Unknown''), (''continent'', S ''Unknown''),
          (''fileURL'', S ''https://bucket.example/video-test1/video-test1-a.mp4''),
          (''fileName'', S ''video-test1-a.mp4''), (''fileType'', S ''MP4''),
          (''size'', S ''unknown''), (''fileSize'', S ''0.00 KB''),
          (''fetchTimeMs'', S ''0.00''), (''throughputKBps'', S ''0.00''),
          (''payloadKB'', S ''0.00''), (''headerSizeBytes'', N 0),
          (''memoryDelta'', S ''0.00 MB'')],
         [(''route'', S ''/survey/case1''), (''storageProvider'', S ''aws''),
          (''country'', S ''Unknown''), (''continent'', S ''Unknown''),
          (''fileURL'', S ''https://bucket.example/video-test1/video-test1-b.mp4''),
          (''fileName'', S ''video-test1-b.mp4''), (''fileType'', S ''MP4''),
          (''size'', S ''unknown''), (''fileSize'', S ''0.00 KB''),
          (''fetchTimeMs'', S ''0.00''), (''throughputKBps'', S ''0.00''),
          (''payloadKB'', S ''0.00''), (''headerSizeBytes'', N 23),
          (''memoryDelta'', S ''0.00 MB'')]],
      hasDownloaded = True,
      downloads =
        [(''aws_complete_metrics.csv'',
          ''route,storageProvider,country,continent,fileURL,fileName,fileType,size,fileSize,fetchTimeMs,throughputKBps,payloadKB,headerSizeBytes,memoryDelta'' @ [CHR 0x0A] @ ''/survey/case1,aws,Unknown,Unknown,https://bucket.example/video-test1/video-test1-a.mp4,video-test1-a.mp4,MP4,unknown,0.00 KB,0.00,0.00,0.00,0,0.00 MB'' @ [CHR 0x0A] @ ''/survey/case1,aws,Unknown,Unknown,https://bucket.example/video-test1/video-test1-b.mp4,video-test1-b.mp4,MP4,unknown,0.00 KB,0.00,0.00,0.00,23,0.00 MB'')],
      requests = 16, tasks = []\<rparr>"
  by code_simp

text \<open>
  C5. In every reachable state of a session, whatever the order in which navigation,
  the geolocation result and the captures in flight interleave at their awaits: at most
  one record carries a given URL, in the log and among all records created so far; no
  URL has a record and a measurement in flight, or two measurements in flight; every
  record's URL and every URL in flight is in the seen-URL set. A task starts the
  measurement of a URL only when the URL is not in the set, and the URL is in the set
  from that moment, while the measurement is in flight; a resumed task issues requests
  only for the URL it had in flight.
\<close>

theorem one_record_per_url:
  "length (filter (\<lambda>m. fileURL m = Some (S url)) (allMetrics (run h b route events))) \<le> 1
   \<and> length (filter (\<lambda>m. fileURL m = Some (S url)) (all_records (run h b route events))) \<le> 1
   \<and> (\<forall>m \<in> set (all_records (run h b route events)).
         \<exists>u \<in> recorded (run h b route events). fileURL m = Some (S u))
   \<and> distinct (map fileURL (all_records (run h b route events))
                @ flights (run h b route events))
   \<and> (\<forall>t \<in> set (tasks (run h b route events)). \<forall>u. in_flight t = Some u
         \<longrightarrow> u \<in> recorded (run h b route events)
             \<and> filter (\<lambda>m. fileURL m = Some (S u)) (all_records (run h b route events)) = [])
   \<and> (k < length (tasks s) \<and> next_claim (pending (tasks s ! k)) (recorded s) = (Some u, rest)
        \<longrightarrow> u \<notin> recorded s \<and> u \<in> recorded (advance h b k s)
            \<and> in_flight (tasks (advance h b k s) ! k) = Some u)
   \<and> (k < length (tasks s) \<and> in_flight (tasks s ! k) = None
        \<longrightarrow> requests (advance h b k s) = requests s)"
proof -
  let ?s = "run h b route events"
  have inv: "session_inv h b ?s" by (rule run_inv)
  then have claimed: "distinct (claimed ?s)"
    and seen: "\<forall>c \<in> set (claimed ?s). \<exists>u \<in> recorded ?s. c = Some (S u)"
    by (simp_all add: session_inv_def)
  from distinct_records_flights [OF claimed]
  have both: "distinct (map fileURL (all_records ?s) @ flights ?s)" .
  then have all: "distinct (map fileURL (all_records ?s))" by simp
  then have log: "distinct (map fileURL (allMetrics ?s))"
    by (simp add: all_records_def)
  have 3: "\<forall>m \<in> set (all_records ?s). \<exists>u \<in> recorded ?s. fileURL m = Some (S u)"
    using seen records_claimed [of ?s] by auto
  have 5: "u \<in> recorded ?s \<and> filter (\<lambda>m. fileURL m = Some (S u)) (all_records ?s) = []"
    if "t \<in> set (tasks ?s)" "in_flight t = Some u" for t u
  proof -
    from in_flight_claimed [OF that] have fl: "Some (S u) \<in> set (flights ?s)" .
    have "mset (claimed ?s) = mset (map fileURL (all_records ?s) @ flights ?s)"
      by (simp add: claimed_all_records flights_def)
    from arg_cong [OF this, of set_mset] fl have "Some (S u) \<in> set (claimed ?s)" by simp
    with seen have "u \<in> recorded ?s" by auto
    moreover from both fl have notin: "Some (S u) \<notin> set (map fileURL (all_records ?s))"
      by auto
    have "fileURL m \<noteq> Some (S u)" if "m \<in> set (all_records ?s)" for m
    proof
      assume "fileURL m = Some (S u)"
      with that have "Some (S u) \<in> fileURL ` set (all_records ?s)" by (rule rev_image_eqI [OF _ sym])
      with notin show False by simp
    qed
    then have "filter (\<lambda>m. fileURL m = Some (S u)) (all_records ?s) = []"
      by (simp add: filter_empty_conv)
    ultimately show ?thesis by simp
  qed
  have 6: "u \<notin> recorded s \<and> u \<in> recorded (advance h b k s)
            \<and> in_flight (tasks (advance h b k s) ! k) = Some u"
    if k: "k < length (tasks s)"
      and nc: "next_claim (pending (tasks s ! k)) (recorded s) = (Some u, rest)"
  proof -
    obtain pushed n' where cm: "complete_measurement h b (tasks s ! k) (requests s) = (pushed, n')"
      by (cases "complete_measurement h b (tasks s ! k) (requests s)")
    from next_claim_fresh [OF nc] k show ?thesis
      by (simp add: advance_cases [OF k cm nc])
  qed
  have 7: "requests (advance h b k s) = requests s"
    if k: "k < length (tasks s)" and fl: "in_flight (tasks s ! k) = None"
  proof -
    from fl have cm: "complete_measurement h b (tasks s ! k) (requests s)
        = (newMetrics (tasks s ! k), requests s)"
      by (simp add: complete_measurement_def)
    obtain found rest' where nc: "next_claim (pending (tasks s ! k)) (recorded s) = (found, rest')"
      by (cases "next_claim (pending (tasks s ! k)) (recorded s)")
    show ?thesis
      by (cases found) (simp_all add: advance_cases [OF k cm nc] export_effect_def)
  qed
  from filter_key_le_1 [OF log] filter_key_le_1 [OF all] 3 both 5 6 7
  show ?thesis by blast
qed

theorem one_record_per_url_witness:
  "tasks (run text_hook flaky_browser ''/survey/case5'' (take 2 reentry))
     = [\<lparr>task_route = ''/survey/case5'', task_location = (''Unknown'', ''Unknown''),
         pending = [],
         in_flight = Some ''https://bucket.example/text-sample/text-sample-a.txt'',
         newMetrics = []\<rparr>,
        \<lparr>task_route = ''/survey/case5'', task_location = (''Norway'', ''Europe''),
         pending = [''https://bucket.example/text-sample/text-sample-a.txt''],
         in_flight = None, newMetrics = []\<rparr>]
   \<and> recorded (run text_hook flaky_browser ''/survey/case5'' (take 2 reentry))
     = {''https://bucket.example/text-sample/text-sample-a.txt''}
   \<and> allMetrics (run text_hook flaky_browser ''/survey/case5'' (take 2 reentry)) = []
   \<and> length (allMetrics (run text_hook flaky_browser ''/survey/case5'' reentry)) = 1
   \<and> length (filter (\<lambda>m. fileURL m
                 = Some (S ''https://bucket.example/text-sample/text-sample-a.txt''))
        (allMetrics (run text_hook flaky_browser ''/survey/case5'' reentry))) = 1
   \<and> requests (run text_hook flaky_browser ''/survey/case5'' reentry) = 8"
proof -
  have "length (filter (\<lambda>m. fileURL m
                 = Some (S ''https://bucket.example/text-sample/text-sample-a.txt''))
        (allMetrics (run text_hook flaky_browser ''/survey/case5'' reentry))) = 1"
    using one_record_per_url [of "''https://bucket.example/text-sample/text-sample-a.txt''"
        text_hook flaky_browser "''/survey/case5''" reentry]
    by (simp add: reentry_run fileURL_def)
  then show ?thesis by (simp add: reentry_run reentry_in_flight)
qed

text \<open>
  C6. In every reachable state at most one report has been materialised, and the flag
  \<open>hasDownloaded\<close> is set exactly when one has; once the flag is set, no later event
  (navigation to the terminal route included) adds a download or clears the flag.
\<close>

theorem export_at_most_once:
  "length (downloads (run h b route events)) \<le> 1
   \<and> (hasDownloaded (run h b route events) \<longleftrightarrow> downloads (run h b route events) \<noteq> [])
   \<and> (hasDownloaded s
        \<longrightarrow> downloads (foldl (step h b) s later) = downloads s
            \<and> hasDownloaded (foldl (step h b) s later))"
proof -
  have inv: "session_inv h b (run h b route events)" by (rule run_inv)
  then have "length (downloads (run h b route events)) \<le> 1"
    and "hasDownloaded (run h b route events) \<longleftrightarrow> downloads (run h b route events) \<noteq> []"
    by (auto simp: session_inv_def split: if_splits)
  with downloaded_steps [of s h b later] show ?thesis by blast
qed

theorem export_at_most_once_witness:
  "length (filter (\<lambda>e. e = Navigate ''/survey/end'') three_visits) = 3
   \<and> length (downloads (run text_hook flaky_browser ''/survey/case5'' three_visits)) = 1
   \<and> hasDownloaded (run text_hook flaky_browser ''/survey/case5'' three_visits)
   \<and> downloads (foldl (step text_hook flaky_browser)
        (run text_hook flaky_browser ''/survey/case5'' three_visits)
        [Navigate ''/survey/thanks'', Navigate ''/survey/end''])
      = downloads (run text_hook flaky_browser ''/survey/case5'' three_visits)"
  using export_at_most_once [of text_hook flaky_browser "''/survey/case5''" three_visits
      "run text_hook flaky_browser ''/survey/case5'' three_visits"
      "[Navigate ''/survey/thanks'', Navigate ''/survey/end'']"]
  by (simp add: three_visits_run) (simp add: three_visits_def)

text \<open>
  C8 as stated fails: the header line of the report names the columns
  \<open>storageProvider\<close>, \<open>size\<close>, \<open>fileSize\<close> and \<open>memoryDelta\<close>, not \<open>provider\<close>, \<open>sizeLabel\<close>,
  \<open>fileSizeHuman\<close> and \<open>memoryDeltaHuman\<close>.
\<close>

theorem report_columns_counterexample:
  "header_line (snd (hd (downloads (run text_hook flaky_browser ''/survey/case5'' three_visits))))
     = ''route,storageProvider,country,continent,fileURL,fileName,fileType,size,fileSize,fetchTimeMs,throughputKBps,payloadKB,headerSizeBytes,memoryDelta''
   \<and> join_with '','' spec_columns
     = ''route,provider,country,continent,fileURL,fileName,fileType,sizeLabel,fileSizeHuman,fetchTimeMs,throughputKBps,payloadKB,headerSizeBytes,memoryDeltaHuman''
   \<and> header_line (snd (hd (downloads (run text_hook flaky_browser ''/survey/case5'' three_visits))))
     \<noteq> join_with '','' spec_columns"
  by (simp add: three_visits_run header_line_def spec_columns_def)

text \<open>
  C8 amended. No report exists when the hook has mounted, and an event either leaves
  the downloads as they are or, with none so far, materialises one report built from
  the whole log of that moment. Its header names the columns route, storageProvider,
  country, continent, fileURL, fileName, fileType, size, fileSize, fetchTimeMs,
  throughputKBps, payloadKB, headerSizeBytes, memoryDelta; these are the 14 keys of every
  record of the log, in the order of the first. It is followed by one row per record of
  the log, in arrival order, each row the 14 values of the record in that order joined
  by commas.
\<close>

theorem report_rows_and_columns:
  "downloads (run h b route []) = []
   \<and> (downloads (run h b route (events @ [e])) = downloads (run h b route events)
       \<or> (downloads (run h b route events) = []
          \<and> allMetrics (run h b route (events @ [e])) \<noteq> []
          \<and> downloads (run h b route (events @ [e]))
              = [(report_name h,
                  join_with '','' metric_keys @ [CHR 0x0A]
                  @ join_with [CHR 0x0A]
                      (map (\<lambda>m. join_with '','' (map (\<lambda>(k, c). cell_text b c) m))
                         (allMetrics (run h b route (events @ [e])))))]))
   \<and> (\<forall>m \<in> set (allMetrics (run h b route events)).
         map fst m = metric_keys \<and> length m = 14)"
proof -
  let ?s = "run h b route events" and ?s' = "run h b route (events @ [e])"
  have mounted: "downloads (run h b route []) = []"
    by (simp add: run_def mount_def export_effect_def capture_effect_def
        split: option.splits)
  have keys: "\<forall>m \<in> set (allMetrics ?s). map fst m = metric_keys \<and> length m = 14"
  proof
    fix m assume "m \<in> set (allMetrics ?s)"
    then have k: "map fst m = metric_keys" by (rule reachable_keys)
    from arg_cong [OF this, of length] have "length m = 14"
      by (simp add: metric_keys_def)
    with k show "map fst m = metric_keys \<and> length m = 14" ..
  qed
  have written: "downloads ?s' = downloads ?s
       \<or> (downloads ?s = [] \<and> allMetrics ?s' \<noteq> []
          \<and> downloads ?s' = [(report_name h, csv_document b (allMetrics ?s'))])"
    using step_writes_log [OF run_inv, of h b route events e] by (simp add: run_snoc)
  have doc: "csv_document b (allMetrics ?s') =
           join_with '','' metric_keys @ [CHR 0x0A]
           @ join_with [CHR 0x0A]
               (map (\<lambda>m. join_with '','' (map (\<lambda>(k, c). cell_text b c) m)) (allMetrics ?s'))"
    if "allMetrics ?s' \<noteq> []"
    using that reachable_keys [of _ h b route "events @ [e]"]
    by (intro csv_document_rows) auto
  from mounted keys written doc show ?thesis by auto
qed

theorem report_rows_and_columns_witness:
  "two_files = take 3 two_files @ [Navigate ''/survey/end'']
   \<and> length (allMetrics (run sample_hook flaky_browser ''/survey/case1'' two_files)) = 2
   \<and> downloads (run sample_hook flaky_browser ''/survey/case1'' two_files)
     = [(report_name sample_hook,
         join_with '','' metric_keys @ [CHR 0x0A]
         @ join_with [CHR 0x0A]
             (map (\<lambda>m. join_with '','' (map (\<lambda>(k, c). cell_text flaky_browser c) m))
                (allMetrics (run sample_hook flaky_browser ''/survey/case1'' two_files))))]
   \<and> snd (hd (downloads (run sample_hook flaky_browser ''/survey/case1'' two_files)))
     = ''route,storageProvider,country,continent,fileURL,fileName,fileType,size,fileSize,fetchTimeMs,throughputKBps,payloadKB,headerSizeBytes,memoryDelta'' @ [CHR 0x0A] @ ''/survey/case1,aws,Unknown,Unknown,https://bucket.example/video-test1/video-test1-a.mp4,video-test1-a.mp4,MP4,unknown,0.00 KB,0.00,0.00,0.00,0,0.00 MB'' @ [CHR 0x0A] @ ''/survey/case1,aws,Unknown,Unknown,https://bucket.example/video-test1/video-test1-b.mp4,video-test1-b.mp4,MP4,unknown,0.00 KB,0.00,0.00,0.00,23,0.00 MB''"
proof -
  have events: "two_files = take 3 two_files @ [Navigate ''/survey/end'']"
    by (simp add: two_files_def)
  have name: "report_name sample_hook = ''aws_complete_metrics.csv''"
    by (simp add: report_name_def sample_hook_def)
  show ?thesis
    using report_rows_and_columns [of sample_hook flaky_browser "''/survey/case1''"
        "take 3 two_files" "Navigate ''/survey/end''"] events
    unfolding two_files_run name
    by (simp add: metric_keys_def cell_text_def)
qed

section \<open>Selection of cases\<close>

lemma promise_all_Inr_map: "promise_all ps = Inr vs \<Longrightarrow> ps = map Inr vs"
proof (induction ps arbitrary: vs)
  case Nil
  then show ?case by simp
next
  case (Cons p ps)
  then show ?case by (cases p) (auto split: sum.splits)
qed

lemma lookup_type_Inherited:
  "lookup_type key = Inherited k \<Longrightarrow> key \<in> set object_prototype_keys"
  by (auto simp: lookup_type_def split: if_splits)

lemma not_Inherited_bucketable:
  "asset_switch (lookup_type (case_prefix n)) k \<Longrightarrow> bucketable (Some n)"
  by (auto simp: bucketable_def lookup_type_def asset_switch_def object_prototype_keys_def
      split: if_splits)

lemma checkAssetsInAzure_True:
  "checkAssetsInAzure client rootDir folderPath caseType = Inr True \<Longrightarrow>
   \<exists>k. asset_switch caseType k"
  by (auto simp: checkAssetsInAzure_def split: sum.splits)

lemma validate_flags:
  assumes "validateCasesInAzure client rootDir candidate = Inr validFlags"
  shows "length validFlags = length candidate"
    and "\<forall>c \<in> set (map fst (filter snd (zip candidate validFlags))). bucketable c"
proof -
  define check where "check = (\<lambda>name. case name of
                 None \<Rightarrow> Inl TypeError
               | Some n \<Rightarrow>
                   checkAssetsInAzure client rootDir (''gallery/cases/'' @ n)
                     (lookup_type (case_prefix n)))"
  from assms have eq: "map check candidate = map Inr validFlags"
    unfolding validateCasesInAzure_def check_def by (rule promise_all_Inr_map)
  from arg_cong [OF eq, of length] show len: "length validFlags = length candidate"
    by simp
  show "\<forall>c \<in> set (map fst (filter snd (zip candidate validFlags))). bucketable c"
  proof
    fix c assume "c \<in> set (map fst (filter snd (zip candidate validFlags)))"
    then have "(c, True) \<in> set (zip candidate validFlags)" by auto
    then obtain i where i: "i < length candidate" "candidate ! i = c" "validFlags ! i = True"
      unfolding set_zip by auto
    from arg_cong [OF eq, of "\<lambda>xs. xs ! i"] i(1) len
    have "check (candidate ! i) = Inr (validFlags ! i)" by simp
    with i have c: "check c = Inr True" by simp
    show "bucketable c"
    proof (cases c)
      case None
      with c show ?thesis by (simp add: check_def)
    next
      case (Some n)
      with c have "checkAssetsInAzure client rootDir (''gallery/cases/'' @ n)
                     (lookup_type (case_prefix n)) = Inr True"
        by (simp add: check_def)
      from checkAssetsInAzure_True [OF this] Some show ?thesis
        by (blast intro: not_Inherited_bucketable)
    qed
  qed
qed

lemma bucket_of_five:
  "bucket_of c \<in> {''image'', ''hybrid'', ''video'', ''audio'', ''text''}"
  by (auto simp: bucket_of_def split: option.splits)

lemma bucket_push_bucketable:
  "bucketable c \<Longrightarrow>
   bucket_push bs c =
     Inr \<lparr>image_bucket = image_bucket bs @ filter (\<lambda>c. bucket_of c = ''image'') [c],
          audio_bucket = audio_bucket bs @ filter (\<lambda>c. bucket_of c = ''audio'') [c],
          video_bucket = video_bucket bs @ filter (\<lambda>c. bucket_of c = ''video'') [c],
          text_bucket = text_bucket bs @ filter (\<lambda>c. bucket_of c = ''text'') [c],
          hybrid_bucket = hybrid_bucket bs @ filter (\<lambda>c. bucket_of c = ''hybrid'') [c]\<rparr>"
  by (cases c) (auto simp: bucketable_def bucket_push_def bucket_of_def Let_def)

lemma fill_buckets_bucketable:
  "\<forall>c \<in> set cs. bucketable c \<Longrightarrow>
   fill_buckets bs cs =
     Inr \<lparr>image_bucket = image_bucket bs @ filter (\<lambda>c. bucket_of c = ''image'') cs,
          audio_bucket = audio_bucket bs @ filter (\<lambda>c. bucket_of c = ''audio'') cs,
          video_bucket = video_bucket bs @ filter (\<lambda>c. bucket_of c = ''video'') cs,
          text_bucket = text_bucket bs @ filter (\<lambda>c. bucket_of c = ''text'') cs,
          hybrid_bucket = hybrid_bucket bs @ filter (\<lambda>c. bucket_of c = ''hybrid'') cs\<rparr>"
proof (induction cs arbitrary: bs)
  case Nil
  then show ?case by simp
next
  case (Cons c cs)
  then have c: "bucketable c" and cs: "\<forall>c \<in> set cs. bucketable c" by simp_all
  show ?case
    by (simp add: bucket_push_bucketable [OF c] Cons.IH [OF cs])
qed

lemma mset_buckets:
  "mset (filter (\<lambda>c. bucket_of c = ''image'') cs)
   + mset (filter (\<lambda>c. bucket_of c = ''hybrid'') cs)
   + mset (filter (\<lambda>c. bucket_of c = ''video'') cs)
   + mset (filter (\<lambda>c. bucket_of c = ''audio'') cs)
   + mset (filter (\<lambda>c. bucket_of c = ''text'') cs) = mset cs"
proof (induction cs)
  case Nil
  then show ?case by simp
next
  case (Cons c cs)
  with bucket_of_five [of c] show ?case by auto
qed

text \<open>
  C7. Whenever the candidates are listed and validated without error,
  \<open>fetchCasesFromAzure\<close> in mode \<open>categorized\<close> returns, without raising, five pieces
  in the order image, hybrid, video, audio, text; each piece is a permutation of the
  valid cases whose prefix names that bucket (image taking every unmatched prefix), and
  the whole is a permutation of the valid cases. \<open>shuffle\<close> is any function that
  returns a permutation of its argument.
\<close>

theorem categorized_order:
  assumes perm: "\<forall>g xs. mset (fst (shuffle g xs)) = mset xs"
    and cand: "(if configExists then Inr (map Some cases)
                else listFoldersFromAzure client rootDir path) = Inr candidate"
    and flags: "validateCasesInAzure client rootDir candidate = Inr validFlags"
  shows "\<exists>is hs vs as ts.
           fetchCasesFromAzure shuffle g client rootDir configExists path cases ''categorized''
             = Inr (is @ hs @ vs @ as @ ts)
           \<and> mset is = mset (filter (\<lambda>c. bucket_of c = ''image'')
                                (map fst (filter snd (zip candidate validFlags))))
           \<and> mset hs = mset (filter (\<lambda>c. bucket_of c = ''hybrid'')
                                (map fst (filter snd (zip candidate validFlags))))
           \<and> mset vs = mset (filter (\<lambda>c. bucket_of c = ''video'')
                                (map fst (filter snd (zip candidate validFlags))))
           \<and> mset as = mset (filter (\<lambda>c. bucket_of c = ''audio'')
                                (map fst (filter snd (zip candidate validFlags))))
           \<and> mset ts = mset (filter (\<lambda>c. bucket_of c = ''text'')
                                (map fst (filter snd (zip candidate validFlags))))
           \<and> mset (is @ hs @ vs @ as @ ts)
               = mset (map fst (filter snd (zip candidate validFlags)))"
proof -
  let ?valid = "map fst (filter snd (zip candidate validFlags))"
  let ?bucket = "\<lambda>b. filter (\<lambda>c. bucket_of c = b) ?valid"
  have filled: "fill_buckets
      \<lparr>image_bucket = [], audio_bucket = [], video_bucket = [], text_bucket = [],
       hybrid_bucket = []\<rparr> ?valid
      = Inr \<lparr>image_bucket = ?bucket ''image'', audio_bucket = ?bucket ''audio'',
             video_bucket = ?bucket ''video'', text_bucket = ?bucket ''text'',
             hybrid_bucket = ?bucket ''hybrid''\<rparr>"
    using fill_buckets_bucketable [OF validate_flags(2) [OF flags]] by simp
  obtain "is" g1 where 1: "shuffle g (?bucket ''image'') = (is, g1)"
    by (cases "shuffle g (?bucket ''image'')")
  obtain hs g2 where 2: "shuffle g1 (?bucket ''hybrid'') = (hs, g2)"
    by (cases "shuffle g1 (?bucket ''hybrid'')")
  obtain vs g3 where 3: "shuffle g2 (?bucket ''video'') = (vs, g3)"
    by (cases "shuffle g2 (?bucket ''video'')")
  obtain as g4 where 4: "shuffle g3 (?bucket ''audio'') = (as, g4)"
    by (cases "shuffle g3 (?bucket ''audio'')")
  obtain ts g5 where 5: "shuffle g4 (?bucket ''text'') = (ts, g5)"
    by (cases "shuffle g4 (?bucket ''text'')")
  have res: "fetchCasesFromAzure shuffle g client rootDir configExists path cases ''categorized''
             = Inr (is @ hs @ vs @ as @ ts)"
    unfolding fetchCasesFromAzure_def cand
    by (simp add: flags Let_def filled 1 2 3 4 5)
  have m: "mset is = mset (?bucket ''image'')" "mset hs = mset (?bucket ''hybrid'')"
    "mset vs = mset (?bucket ''video'')" "mset as = mset (?bucket ''audio'')"
    "mset ts = mset (?bucket ''text'')"
    using perm [rule_format, of g "?bucket ''image''"] perm [rule_format, of g1 "?bucket ''hybrid''"]
      perm [rule_format, of g2 "?bucket ''video''"] perm [rule_format, of g3 "?bucket ''audio''"]
      perm [rule_format, of g4 "?bucket ''text''"] 1 2 3 4 5
    by simp_all
  have "mset (is @ hs @ vs @ as @ ts) = mset ?valid"
    using mset_buckets [of ?valid] by (simp add: m ac_simps)
  with res m show ?thesis by blast
qed


theorem categorized_order_witness:
  "validateCasesInAzure full_container ''dev'' (map Some sample_cases)
     = Inr [True, True, True, True, False, True, True, True]
   \<and> fetchCasesFromAzure reversing_shuffle () full_container ''dev'' True ''gallery/cases''
       sample_cases ''categorized''
     = Inr [Some ''pdf-1'', Some ''image-1'', Some ''HYBRID-1'', Some ''video-1'',
            Some ''audio-2'', Some ''Audio-1'', Some ''text-1'']
   \<and> mset (map fst (filter snd (zip (map Some sample_cases)
                [True, True, True, True, False, True, True, True])))
     = mset [Some ''pdf-1'', Some ''image-1'', Some ''HYBRID-1'', Some ''video-1'',
             Some ''audio-2'', Some ''Audio-1'', Some ''text-1'']"
proof -
  have perm: "\<forall>g xs. mset (fst (reversing_shuffle g xs)) = mset xs"
    by (simp add: reversing_shuffle_def)
  have cand: "(if True then Inr (map Some sample_cases)
               else listFoldersFromAzure full_container ''dev'' ''gallery/cases'')
              = Inr (map Some sample_cases)"
    by simp
  have flags: "validateCasesInAzure full_container ''dev'' (map Some sample_cases)
     = Inr [True, True, True, True, False, True, True, True]"
    by code_simp
  have result: "fetchCasesFromAzure reversing_shuffle () full_container ''dev'' True
       ''gallery/cases'' sample_cases ''categorized''
     = Inr [Some ''pdf-1'', Some ''image-1'', Some ''HYBRID-1'', Some ''video-1'',
            Some ''audio-2'', Some ''Audio-1'', Some ''text-1'']"
    by code_simp
  from categorized_order [OF perm cand flags, of "()"]
  obtain "is" hs vs as ts where
    r: "fetchCasesFromAzure reversing_shuffle () full_container ''dev'' True
          ''gallery/cases'' sample_cases ''categorized'' = Inr (is @ hs @ vs @ as @ ts)"
    and m: "mset (is @ hs @ vs @ as @ ts)
              = mset (map fst (filter snd (zip (map Some sample_cases)
                   [True, True, True, True, False, True, True, True])))"
    by blast
  from r result have "is @ hs @ vs @ as @ ts
      = [Some ''pdf-1'', Some ''image-1'', Some ''HYBRID-1'', Some ''video-1'',
         Some ''audio-2'', Some ''Audio-1'', Some ''text-1'']"
    by simp
  with m have "mset (map fst (filter snd (zip (map Some sample_cases)
                [True, True, True, True, False, True, True, True])))
     = mset [Some ''pdf-1'', Some ''image-1'', Some ''HYBRID-1'', Some ''video-1'',
             Some ''audio-2'', Some ''Audio-1'', Some ''text-1'']"
    by (simp only:)
  with flags result show ?thesis by (intro conjI)
qed

section \<open>Pagination\<close>

lemma list_continue_serves:
  "serves dbx response later \<Longrightarrow>
   list_continue dbx response acc = Some (Inr (acc @ concat (map entries later)))"
proof (induction later arbitrary: response acc)
  case Nil
  then show ?case by (subst list_continue.simps) simp
next
  case (Cons page later)
  then show ?case by (subst list_continue.simps) simp
qed

text \<open>
  Dropbox's \<open>listFolders\<close> returns, and returns the folders of every page, whenever
  the backend serves a finite chain of pages: the pagination that the OneDrive and
  Google Drive modules lack.
\<close>

lemma listFolders_exhausts:
  assumes "filesListFolder dbx (rootDir @ path) = Inr response"
    and "serves dbx response later"
  shows "listFolders dbx rootDir path =
           Some (Inr (map entry_name (filter (\<lambda>entry. entry_tag entry = ''folder'')
                        (concat (map entries (response # later))))))"
  using assms list_continue_serves [OF assms(2), of "entries response"]
  by (simp add: listFolders_def listAllEntries_def)

text \<open>
  C3 fails on the code. \<open>listFoldersFromOneDrive\<close> reads \<open>response.data.value\<close> of one
  request and never follows \<open>@odata.nextLink\<close>: on a folder whose two sub-folders come
  on two pages it returns one name, where following the link gives two.
  \<open>listFilesInFolder\<close> likewise sends one request without a page token and returns the
  two files of the first page of three.
\<close>

theorem listFolders_first_page_only:
  "listFoldersFromOneDrive paged_client ''dev'' ''gallery/cases'' = Inr [''image-1'']
   \<and> follow_links paged_client 2 (children_url ''dev'' ''gallery/cases'')
     = Some (Inr [folder_item ''image-1'', folder_item ''audio-2''])
   \<and> listFilesInFolder paged_api ''folder-id'' [] = Inr [''a.jpg'', ''b.jpg'']
   \<and> paged_api ''q'' (Some ''p2'') = Inr \<lparr>files = [(''id3'', ''c.jpg'')], nextPageToken = None\<rparr>"
  by (simp add: listFoldersFromOneDrive_def paged_client_def children_url_def folder_item_def
      listFilesInFolder_def paged_api_def numeral_2_eq_2)

end
